theory Spec2Isabelle
  imports Main "HOL-Library.Word"
begin

unbundle bit_operations_syntax

section \<open>The circular queue of \<^verbatim>\<open>ac_cqueue.c\<close>\<close>

subsection \<open>Data model\<close>

text \<open>
  An item is an opaque \<^verbatim>\<open>void *\<close>: only its identity and whether it is the null
  pointer matter to the queue. Addresses are natural numbers, the null pointer is 0.
  The target is taken to be LP64: \<^verbatim>\<open>size_t\<close> has 64 bits and a pointer takes 8 bytes.
  The \<^verbatim>\<open>size_t\<close> fields of the queue are natural numbers: \<^verbatim>\<open>front\<close>, \<^verbatim>\<open>rear\<close> and
  \<^verbatim>\<open>count\<close> never exceed \<^verbatim>\<open>size\<close>, and \<^verbatim>\<open>size\<close> is the requested size or grows in
  steps of 16 with a slot array that \<^verbatim>\<open>realloc\<close> has really provided. The one product
  that can wrap around is the byte size of the slot array that \<^verbatim>\<open>ac_cqueue_new\<close> asks
  \<^verbatim>\<open>malloc\<close> for; it is computed on 64-bit words below.
\<close>

type_synonym ptr = nat

definition NULL :: ptr where
  "NULL = 0"

text \<open>
  The release callback \<^verbatim>\<open>void (*free_item)(void *item)\<close> acts on the world outside
  the queue; it is a transformer of a world state \<open>'w\<close>, and every operation that may
  call it threads the world through.
\<close>

type_synonym 'w free_fn = "ptr \<Rightarrow> 'w \<Rightarrow> 'w"

text \<open>
  \<^verbatim>\<open>struct ac_cqueue_t\<close>, with the fields that \<^verbatim>\<open>ac_cqueue.c\<close> uses. The field
  \<^verbatim>\<open>size\<close> is named \<open>size_q\<close> here.
\<close>

record 'w ac_cqueue_t =
  queue :: "ptr list"
  front :: nat
  rear :: nat
  count :: nat
  size_q :: nat
  dyn_size :: bool
  overwrite :: bool
  free_item :: "'w free_fn"

definition null_free_item :: "'w free_fn" where
  "null_free_item data w = w"

definition AC_CQUEUE_ALLOC_CHUNK_SZ :: nat where
  "AC_CQUEUE_ALLOC_CHUNK_SZ = 16"

text \<open>
  Modelled from the spec: the header \<^verbatim>\<open>include/libac.h\<close> that defines the flag
  \<^verbatim>\<open>AC_CQUEUE_OVERWRITE\<close> is not among the sources. The spec says that the flags
  value has exactly one recognised option, the bit that enables overwrite mode; it is
  taken to be the lowest bit. No general theorem below depends on which bit it is.
\<close>

definition AC_CQUEUE_OVERWRITE :: "32 word" where
  "AC_CQUEUE_OVERWRITE = 1"

text \<open>
  How a call of \<^verbatim>\<open>ac_cqueue_new\<close> can end without a queue: it returns the null pointer
  with \<^verbatim>\<open>errno\<close> set to \<^verbatim>\<open>EINVAL\<close>, or it passes a null pointer that \<^verbatim>\<open>malloc\<close>
  returned to a dereference or to \<^verbatim>\<open>memset\<close>, which is undefined behaviour (\<open>Fault\<close>).
\<close>

datatype error = EINVAL | Fault

subsection \<open>Construction\<close>

text \<open>
  The number of whole slots in a block of \<^verbatim>\<open>n * sizeof(void *)\<close> bytes, the product
  being computed in \<^verbatim>\<open>size_t\<close>: for \<open>n\<close> from \<open>2 ^ 61\<close> on it wraps around.
\<close>

definition alloc_slots :: "64 word \<Rightarrow> nat" where
  "alloc_slots n = unat (n * 8) div 8"

text \<open>
  \<^verbatim>\<open>ac_cqueue_new(size, free_item, flags)\<close>. The source does not check what its two
  calls of \<^verbatim>\<open>malloc\<close> return; their outcomes are arguments of the model. \<open>st\<close> tells
  whether the allocation of the \<^verbatim>\<open>struct\<close> succeeds: if not, the assignment to
  \<^verbatim>\<open>cqueue->size\<close> dereferences the null pointer. \<open>arr\<close> is the outcome of the
  allocation of the slot array: \<open>None\<close> when \<^verbatim>\<open>malloc\<close> returns the null pointer, which
  \<^verbatim>\<open>memset\<close> then receives in overwrite mode and which otherwise stays in the queue as
  an array without any slot; \<open>Some mem\<close> when it succeeds, \<open>mem i\<close> being the value that
  the uninitialised slot \<open>i\<close> happens to hold. The block has \<^verbatim>\<open>size * sizeof(void *)\<close>
  bytes, and \<^verbatim>\<open>memset\<close> clears as many. An absent callback is \<open>None\<close>.
\<close>

definition ac_cqueue_new ::
  "bool \<Rightarrow> (nat \<Rightarrow> ptr) option \<Rightarrow> 64 word \<Rightarrow> 'w free_fn option \<Rightarrow> 32 word \<Rightarrow>
     error + 'w ac_cqueue_t" where
  "ac_cqueue_new st arr sz fi flags =
     (if flags AND NOT AC_CQUEUE_OVERWRITE \<noteq> 0 then Inl EINVAL
      else if \<not> st then Inl Fault
      else
        let n = (if sz = 0 then of_nat AC_CQUEUE_ALLOC_CHUNK_SZ else sz);
            dyn = (sz = 0);
            ow = (flags AND AC_CQUEUE_OVERWRITE \<noteq> 0);
            f = (case fi of None \<Rightarrow> null_free_item | Some f \<Rightarrow> f)
        in case arr of
             None \<Rightarrow>
               if ow then Inl Fault
               else Inr \<lparr> queue = [], front = 0, rear = 0, count = 0, size_q = unat n,
                          dyn_size = dyn, overwrite = ow, free_item = f \<rparr>
           | Some mem \<Rightarrow>
               Inr \<lparr> queue = (if ow then replicate (alloc_slots n) NULL
                                 else map mem [0..<alloc_slots n]),
                     front = 0, rear = 0, count = 0, size_q = unat n,
                     dyn_size = dyn, overwrite = ow, free_item = f \<rparr>)"

subsection \<open>Insertion\<close>

text \<open>
  Lines 102 to 123 of \<^verbatim>\<open>ac_cqueue_push\<close>, after the two early returns and the
  growth: wrap \<^verbatim>\<open>rear\<close>, release the occupant of the target slot in overwrite mode,
  store the item, and move \<^verbatim>\<open>front\<close> in overwrite mode.
\<close>

definition push_store :: "'w ac_cqueue_t \<Rightarrow> ptr \<Rightarrow> 'w \<Rightarrow> int \<times> 'w ac_cqueue_t \<times> 'w" where
  "push_store cq item w =
     (let cq2 = (if rear cq = size_q cq then cq\<lparr> rear := 0 \<rparr> else cq);
          w' = (if overwrite cq2 \<and> queue cq2 ! rear cq2 \<noteq> NULL
                then free_item cq2 (queue cq2 ! rear cq2) w else w);
          cq3 = cq2\<lparr> queue := (queue cq2)[rear cq2 := item] \<rparr>;
          cq4 = cq3\<lparr> rear := rear cq3 + 1 \<rparr>;
          cq5 = (if count cq4 < size_q cq4 then cq4\<lparr> count := count cq4 + 1 \<rparr> else cq4);
          cq6 = (if overwrite cq5 \<and> front cq5 < rear cq5
                 then let cq' = cq5\<lparr> front := rear cq5 \<rparr>
                      in if front cq' = size_q cq' then cq'\<lparr> front := 0 \<rparr> else cq'
                 else cq5)
      in (0, cq6, w'))"

text \<open>
  \<^verbatim>\<open>ac_cqueue_push(cqueue, item)\<close>. The outcome of the one call of \<^verbatim>\<open>realloc\<close> is
  the argument \<open>ra\<close>: \<open>None\<close> when it returns the null pointer, \<open>Some junk\<close> when it
  succeeds, \<open>junk i\<close> being the uninitialised content of the \<open>i\<close>-th added slot
  (\<^verbatim>\<open>realloc\<close> keeps the old slots). The result is the returned \<^verbatim>\<open>int\<close>, the
  queue and the world. The byte size that \<^verbatim>\<open>realloc\<close> is asked for could wrap around
  only on a queue that is full with at least \<open>2 ^ 61 - 16\<close> slots, which no address space
  holds.
\<close>

definition ac_cqueue_push ::
  "(nat \<Rightarrow> ptr) option \<Rightarrow> 'w ac_cqueue_t \<Rightarrow> ptr \<Rightarrow> 'w \<Rightarrow> int \<times> 'w ac_cqueue_t \<times> 'w" where
  "ac_cqueue_push ra cq item w =
     (if count cq = size_q cq \<and> \<not> dyn_size cq \<and> \<not> overwrite cq then (- 1, cq, w)
      else if count cq = size_q cq \<and> dyn_size cq then
        (case ra of
           None \<Rightarrow> (- 1, cq, w)
         | Some junk \<Rightarrow>
             push_store
               (cq\<lparr> queue := queue cq @ map junk [0..<AC_CQUEUE_ALLOC_CHUNK_SZ],
                    size_q := size_q cq + AC_CQUEUE_ALLOC_CHUNK_SZ \<rparr>) item w)
      else push_store cq item w)"

subsection \<open>Removal\<close>

text \<open>\<^verbatim>\<open>ac_cqueue_pop(cqueue)\<close>: the returned pointer and the queue.\<close>

definition ac_cqueue_pop :: "'w ac_cqueue_t \<Rightarrow> ptr \<times> 'w ac_cqueue_t" where
  "ac_cqueue_pop cq =
     (if count cq = 0 then (NULL, cq)
      else
        let cq1 = (if front cq = size_q cq then cq\<lparr> front := 0 \<rparr> else cq);
            cq2 = cq1\<lparr> count := count cq1 - 1 \<rparr>;
            p = queue cq2 ! front cq2;
            cq3 = (if overwrite cq2 then cq2\<lparr> queue := (queue cq2)[front cq2 := NULL] \<rparr>
                   else cq2);
            cq4 = cq3\<lparr> front := front cq3 + 1 \<rparr>
        in (p, cq4))"

subsection \<open>Queries\<close>

definition ac_cqueue_is_empty :: "'w ac_cqueue_t \<Rightarrow> bool" where
  "ac_cqueue_is_empty cq = (count cq = 0)"

definition ac_cqueue_nr_items :: "'w ac_cqueue_t \<Rightarrow> nat" where
  "ac_cqueue_nr_items cq = count cq"

subsection \<open>Destruction\<close>

text \<open>
  The loop \<^verbatim>\<open>for (i = lo; i < hi; i++) cqueue->free_item(cqueue->queue[i]);\<close> of
  \<^verbatim>\<open>ac_cqueue_destroy\<close>.
\<close>

function free_range :: "'w ac_cqueue_t \<Rightarrow> nat \<Rightarrow> nat \<Rightarrow> 'w \<Rightarrow> 'w" where
  "free_range cq i hi w =
     (if i < hi then free_range cq (i + 1) hi (free_item cq (queue cq ! i) w) else w)"
  by pat_completeness auto
termination
  by (relation "measure (\<lambda>(cq, i, hi, w). hi - i)") auto

text \<open>
  \<^verbatim>\<open>ac_cqueue_destroy(cqueue)\<close>: the world after the calls of the release callback.
  The queue itself is freed and no longer exists afterwards.
\<close>

definition ac_cqueue_destroy :: "'w ac_cqueue_t \<Rightarrow> 'w \<Rightarrow> 'w" where
  "ac_cqueue_destroy cq w =
     (if front cq < rear cq then free_range cq (front cq) (rear cq) w
      else free_range cq 0 (rear cq) (free_range cq (front cq) (size_q cq) w))"

subsection \<open>Sequences of operations\<close>

text \<open>
  A client's calls on one queue, and what each call returns. \<open>Push ra item\<close> is
  \<^verbatim>\<open>ac_cqueue_push(cqueue, item)\<close> in an execution where \<^verbatim>\<open>realloc\<close>, if it is
  called, has the outcome \<open>ra\<close>.
\<close>

datatype cq_op = Push "(nat \<Rightarrow> ptr) option" ptr | Pop

datatype cq_ret = Pushed int | Popped ptr

fun step :: "cq_op \<Rightarrow> 'w ac_cqueue_t \<times> 'w \<Rightarrow> cq_ret \<times> 'w ac_cqueue_t \<times> 'w" where
  "step (Push ra item) (cq, w) =
     (case ac_cqueue_push ra cq item w of (r, cq', w') \<Rightarrow> (Pushed r, cq', w'))"
| "step Pop (cq, w) =
     (case ac_cqueue_pop cq of (p, cq') \<Rightarrow> (Popped p, cq', w))"

fun run :: "cq_op list \<Rightarrow> 'w ac_cqueue_t \<times> 'w \<Rightarrow> cq_ret list \<times> 'w ac_cqueue_t \<times> 'w" where
  "run [] (cq, w) = ([], cq, w)"
| "run (c # cs) (cq, w) =
     (case step c (cq, w) of (r, cq', w') \<Rightarrow>
        (case run cs (cq', w') of (rs, cq'', w'') \<Rightarrow> (r # rs, cq'', w'')))"

text \<open>
  A release callback that records its argument: the world is the list of the pointers
  it was called on, in the order of the calls.
\<close>

definition log_item :: "ptr list free_fn" where
  "log_item item w = w @ [item]"

text \<open>The data fields of a queue, without the callback.\<close>

definition cq_fields :: "'w ac_cqueue_t \<Rightarrow> ptr list \<times> nat \<times> nat \<times> nat \<times> nat" where
  "cq_fields cq = (queue cq, front cq, rear cq, count cq, size_q cq)"

text \<open>
  The bounds that the operations maintain: the capacity is positive, and the indices
  and the count do not exceed it.
\<close>

definition cq_shape :: "'w ac_cqueue_t \<Rightarrow> bool" where
  "cq_shape cq =
     (0 < size_q cq \<and> front cq \<le> size_q cq \<and> rear cq \<le> size_q cq \<and>
      count cq \<le> size_q cq)"

text \<open>
  Memory safety. \<^verbatim>\<open>ac_cqueue_push\<close>, unless it returns early, reads and writes the
  slot \<^verbatim>\<open>queue[rear]\<close>, after the growth and after the wrap of \<^verbatim>\<open>rear\<close>;
  \<^verbatim>\<open>ac_cqueue_pop\<close>, on a queue that is not empty, reads \<^verbatim>\<open>queue[front]\<close> after the
  wrap of \<^verbatim>\<open>front\<close>. An access outside the slot array is undefined behaviour, and
  what the model says about an execution has a meaning only as long as every access is
  inside: \<open>in_array ops (cq, w)\<close> says so of the operations \<open>ops\<close> from the queue \<open>cq\<close>.
\<close>

definition push_in_array :: "(nat \<Rightarrow> ptr) option \<Rightarrow> 'w ac_cqueue_t \<Rightarrow> bool" where
  "push_in_array ra cq =
     (if count cq = size_q cq \<and> \<not> dyn_size cq \<and> \<not> overwrite cq then True
      else if count cq = size_q cq \<and> dyn_size cq then
        (case ra of
           None \<Rightarrow> True
         | Some junk \<Rightarrow>
             (if rear cq = size_q cq + AC_CQUEUE_ALLOC_CHUNK_SZ then 0 else rear cq)
               < length (queue cq) + AC_CQUEUE_ALLOC_CHUNK_SZ)
      else (if rear cq = size_q cq then 0 else rear cq) < length (queue cq))"

definition pop_in_array :: "'w ac_cqueue_t \<Rightarrow> bool" where
  "pop_in_array cq =
     (if count cq = 0 then True
      else (if front cq = size_q cq then 0 else front cq) < length (queue cq))"

fun in_array :: "cq_op list \<Rightarrow> 'w ac_cqueue_t \<times> 'w \<Rightarrow> bool" where
  "in_array [] (cq, w) = True"
| "in_array (Push ra item # cs) (cq, w) =
     (push_in_array ra cq \<and>
      (case ac_cqueue_push ra cq item w of (r, cq', w') \<Rightarrow> in_array cs (cq', w')))"
| "in_array (Pop # cs) (cq, w) =
     (pop_in_array cq \<and> (case ac_cqueue_pop cq of (p, cq') \<Rightarrow> in_array cs (cq', w)))"

text \<open>
  A client session: construct the queue, run the operations, and report the values the
  calls returned, the data fields of the queue at the end and the world at the end.
  \<open>session_destroy\<close> ends with \<^verbatim>\<open>ac_cqueue_destroy\<close> and reports the world after it.
\<close>

definition session ::
  "bool \<Rightarrow> (nat \<Rightarrow> ptr) option \<Rightarrow> 64 word \<Rightarrow> 'w free_fn option \<Rightarrow> 32 word \<Rightarrow>
     cq_op list \<Rightarrow> 'w \<Rightarrow>
     error + cq_ret list \<times> (ptr list \<times> nat \<times> nat \<times> nat \<times> nat) \<times> 'w" where
  "session st arr sz fi flags ops w =
     (case ac_cqueue_new st arr sz fi flags of
        Inl e \<Rightarrow> Inl e
      | Inr cq \<Rightarrow> (case run ops (cq, w) of (rs, cq', w') \<Rightarrow> Inr (rs, cq_fields cq', w')))"

definition session_destroy ::
  "bool \<Rightarrow> (nat \<Rightarrow> ptr) option \<Rightarrow> 64 word \<Rightarrow> 'w free_fn option \<Rightarrow> 32 word \<Rightarrow>
     cq_op list \<Rightarrow> 'w \<Rightarrow> error + cq_ret list \<times> 'w" where
  "session_destroy st arr sz fi flags ops w =
     (case ac_cqueue_new st arr sz fi flags of
        Inl e \<Rightarrow> Inl e
      | Inr cq \<Rightarrow> (case run ops (cq, w) of (rs, cq', w') \<Rightarrow> Inr (rs, ac_cqueue_destroy cq' w')))"

text \<open>
  The live items in the order of their removal: the \<^verbatim>\<open>count\<close> slots from \<^verbatim>\<open>front\<close>
  on, around the end of the array. On a fixed queue without overwrite mode whose slot
  array is complete, \<^verbatim>\<open>rear\<close> is \<^verbatim>\<open>count\<close> steps ahead of \<^verbatim>\<open>front\<close>, modulo the
  capacity.
\<close>

definition live :: "'w ac_cqueue_t \<Rightarrow> ptr list" where
  "live cq = map (\<lambda>i. queue cq ! ((front cq + i) mod size_q cq)) [0..<count cq]"

definition fifo_inv :: "'w ac_cqueue_t \<Rightarrow> bool" where
  "fifo_inv cq =
     (\<not> overwrite cq \<and> \<not> dyn_size cq \<and> cq_shape cq \<and> length (queue cq) = size_q cq \<and>
      rear cq mod size_q cq = (front cq + count cq) mod size_q cq)"

text \<open>
  All slots in ring order, starting at \<^verbatim>\<open>front\<close>; and the state of a fixed queue in
  overwrite mode that is full: \<^verbatim>\<open>rear\<close>, wrapped, is \<^verbatim>\<open>front\<close>, and no slot is empty.
\<close>

definition ring :: "'w ac_cqueue_t \<Rightarrow> ptr list" where
  "ring cq = drop (front cq) (queue cq) @ take (front cq) (queue cq)"

definition ow_full :: "'w ac_cqueue_t \<Rightarrow> bool" where
  "ow_full cq =
     (overwrite cq \<and> \<not> dyn_size cq \<and> count cq = size_q cq \<and>
      length (queue cq) = size_q cq \<and> front cq < size_q cq \<and>
      (if rear cq = size_q cq then 0 else rear cq) = front cq \<and>
      NULL \<notin> set (queue cq))"

section \<open>Properties\<close>

subsection \<open>Construction\<close>

text \<open>
  A flags value has a bit outside a mask, or a bit in common with it. Below \<open>2 ^ 61\<close>
  slots the byte size of the slot array does not wrap around.
\<close>

lemma other_bit_iff:
  "(flags AND NOT m \<noteq> 0) = (\<exists>n. bit flags n \<and> \<not> bit m n)" for flags m :: "32 word"
proof
  assume "flags AND NOT m \<noteq> 0"
  then obtain n where "bit (flags AND NOT m) n"
    by (auto simp add: bit_eq_iff)
  then show "\<exists>n. bit flags n \<and> \<not> bit m n"
    by (auto simp add: bit_and_iff bit_not_iff)
next
  assume "\<exists>n. bit flags n \<and> \<not> bit m n"
  then obtain n where n: "bit flags n" "\<not> bit m n"
    by blast
  from n(1) have "n < 32"
    using bit_imp_le_length [of flags n] by simp
  with n have "bit (flags AND NOT m) n"
    by (simp add: bit_and_iff bit_not_iff)
  then show "flags AND NOT m \<noteq> 0"
    by auto
qed

lemma common_bit_iff:
  "(flags AND m \<noteq> 0) = (\<exists>n. bit flags n \<and> bit m n)" for flags m :: "32 word"
proof
  assume "flags AND m \<noteq> 0"
  then obtain n where "bit (flags AND m) n"
    by (auto simp add: bit_eq_iff)
  then show "\<exists>n. bit flags n \<and> bit m n"
    by (auto simp add: bit_and_iff)
next
  assume "\<exists>n. bit flags n \<and> bit m n"
  then obtain n where "bit (flags AND m) n"
    by (auto simp add: bit_and_iff)
  then show "flags AND m \<noteq> 0"
    by auto
qed

lemma alloc_slots_small:
  assumes "unat n < 2 ^ 61"
  shows "alloc_slots n = unat n"
proof -
  from assms have "unat n * 8 < 2 ^ 64"
    by simp
  then have "unat (n * 8) = unat n * 8"
    by (simp add: unat_word_ariths)
  then show ?thesis
    by (simp add: alloc_slots_def)
qed

text \<open>
  Claim C7, as amended. \<^verbatim>\<open>ac_cqueue_new\<close> fails with \<^verbatim>\<open>EINVAL\<close>, and returns no queue,
  exactly when the flags value has a bit set that is not a bit of
  \<^verbatim>\<open>AC_CQUEUE_OVERWRITE\<close>, whatever the allocations do. Otherwise, when both
  allocations succeed and the requested size is below \<open>2 ^ 61\<close>, it returns a queue
  with \<^verbatim>\<open>front\<close>, \<^verbatim>\<open>rear\<close> and \<^verbatim>\<open>count\<close> 0; a requested size of 0 gives a growable
  queue of 16 slots, a positive size a fixed queue with that many slots; overwrite mode
  is on when the flag is set, and then every slot is the null pointer (otherwise the
  slots hold what \<^verbatim>\<open>malloc\<close> left there).
\<close>

theorem new_flags_and_shape:
  "(ac_cqueue_new st arr sz fi flags = Inl EINVAL) =
     (\<exists>n. bit flags n \<and> \<not> bit AC_CQUEUE_OVERWRITE n) \<and>
   ((\<nexists>n. bit flags n \<and> \<not> bit AC_CQUEUE_OVERWRITE n) \<and> st \<and> arr = Some mem \<and>
      unat sz < 2 ^ 61 \<longrightarrow>
    ac_cqueue_new st arr sz fi flags =
      Inr \<lparr> queue = (if \<exists>n. bit flags n \<and> bit AC_CQUEUE_OVERWRITE n
                      then replicate (if sz = 0 then 16 else unat sz) NULL
                      else map mem [0..<(if sz = 0 then 16 else unat sz)]),
            front = 0, rear = 0, count = 0,
            size_q = (if sz = 0 then 16 else unat sz),
            dyn_size = (sz = 0),
            overwrite = (\<exists>n. bit flags n \<and> bit AC_CQUEUE_OVERWRITE n),
            free_item = (case fi of None \<Rightarrow> null_free_item | Some f \<Rightarrow> f) \<rparr>)"
proof -
  have a16: "alloc_slots 16 = 16"
    by (simp add: alloc_slots_def)
  show ?thesis
    unfolding other_bit_iff [symmetric] common_bit_iff [symmetric]
    by (auto simp add: ac_cqueue_new_def Let_def AC_CQUEUE_ALLOC_CHUNK_SZ_def a16
        alloc_slots_small split: option.splits)
qed

theorem new_flags_and_shape_witness:
  "ac_cqueue_new False None 0 (Some log_item) 2 = Inl EINVAL \<and>
   ac_cqueue_new True (Some (\<lambda>i. 7)) 0 (Some log_item) 1 =
     Inr \<lparr> queue = replicate 16 NULL, front = 0, rear = 0, count = 0, size_q = 16,
           dyn_size = True, overwrite = True, free_item = log_item \<rparr> \<and>
   ac_cqueue_new True (Some (\<lambda>i. 7)) 3 (Some log_item) 0 =
     Inr \<lparr> queue = [7, 7, 7], front = 0, rear = 0, count = 0, size_q = 3,
           dyn_size = False, overwrite = False, free_item = log_item \<rparr>"
proof (intro conjI)
  have "\<exists>n. bit (2 :: 32 word) n \<and> \<not> bit AC_CQUEUE_OVERWRITE n"
    unfolding AC_CQUEUE_OVERWRITE_def by (rule exI [of _ 1]) simp
  then show "ac_cqueue_new False None 0 (Some log_item) 2 = Inl EINVAL"
    by (rule new_flags_and_shape [THEN conjunct1, THEN iffD2])
next
  have none: "\<nexists>n. bit (1 :: 32 word) n \<and> \<not> bit AC_CQUEUE_OVERWRITE n"
    by (simp add: AC_CQUEUE_OVERWRITE_def)
  have common: "\<exists>n. bit (1 :: 32 word) n \<and> bit AC_CQUEUE_OVERWRITE n"
    unfolding AC_CQUEUE_OVERWRITE_def by (rule exI [of _ 0]) simp
  have small: "unat (0 :: 64 word) < 2 ^ 61"
    by simp
  from none small have "ac_cqueue_new True (Some (\<lambda>i. 7)) 0 (Some log_item) 1 =
      Inr \<lparr> queue = (if \<exists>n. bit (1 :: 32 word) n \<and> bit AC_CQUEUE_OVERWRITE n
                      then replicate (if (0 :: 64 word) = 0 then 16 else unat (0 :: 64 word)) NULL
                      else map (\<lambda>i. 7) [0..<(if (0 :: 64 word) = 0 then 16 else unat (0 :: 64 word))]),
            front = 0, rear = 0, count = 0,
            size_q = (if (0 :: 64 word) = 0 then 16 else unat (0 :: 64 word)),
            dyn_size = ((0 :: 64 word) = 0),
            overwrite = (\<exists>n. bit (1 :: 32 word) n \<and> bit AC_CQUEUE_OVERWRITE n),
            free_item = (case Some log_item of None \<Rightarrow> null_free_item | Some f \<Rightarrow> f) \<rparr>"
    by (intro new_flags_and_shape [THEN conjunct2, THEN mp]) simp
  with common show "ac_cqueue_new True (Some (\<lambda>i. 7)) 0 (Some log_item) 1 =
     Inr \<lparr> queue = replicate 16 NULL, front = 0, rear = 0, count = 0, size_q = 16,
           dyn_size = True, overwrite = True, free_item = log_item \<rparr>"
    by (simp only: if_True option.case refl)
next
  have none: "\<nexists>n. bit (0 :: 32 word) n \<and> \<not> bit AC_CQUEUE_OVERWRITE n"
    by simp
  have common: "\<nexists>n. bit (0 :: 32 word) n \<and> bit AC_CQUEUE_OVERWRITE n"
    by simp
  have small: "unat (3 :: 64 word) < 2 ^ 61"
    by simp
  have u: "map (\<lambda>i. 7 :: nat) [0..<3] = [7, 7, 7]"
    by (simp add: upt_rec)
  have z: "((3 :: 64 word) = 0) = False" "unat (3 :: 64 word) = 3"
    by simp_all
  from none small have "ac_cqueue_new True (Some (\<lambda>i. 7)) 3 (Some log_item) 0 =
      Inr \<lparr> queue = (if \<exists>n. bit (0 :: 32 word) n \<and> bit AC_CQUEUE_OVERWRITE n
                      then replicate (if (3 :: 64 word) = 0 then 16 else unat (3 :: 64 word)) NULL
                      else map (\<lambda>i. 7) [0..<(if (3 :: 64 word) = 0 then 16 else unat (3 :: 64 word))]),
            front = 0, rear = 0, count = 0,
            size_q = (if (3 :: 64 word) = 0 then 16 else unat (3 :: 64 word)),
            dyn_size = ((3 :: 64 word) = 0),
            overwrite = (\<exists>n. bit (0 :: 32 word) n \<and> bit AC_CQUEUE_OVERWRITE n),
            free_item = (case Some log_item of None \<Rightarrow> null_free_item | Some f \<Rightarrow> f) \<rparr>"
    by (intro new_flags_and_shape [THEN conjunct2, THEN mp]) simp
  with common show "ac_cqueue_new True (Some (\<lambda>i. 7)) 3 (Some log_item) 0 =
     Inr \<lparr> queue = [7, 7, 7], front = 0, rear = 0, count = 0, size_q = 3,
           dyn_size = False, overwrite = False, free_item = log_item \<rparr>"
    by (simp only: if_False option.case z u)
qed

text \<open>
  Claim C7 as it was stated promises the queue for every size and says nothing of the
  allocations. With valid flags and the requested size \<open>2 ^ 61 + 1\<close>, the byte size
  wraps around to 8: the queue that is returned has \<^verbatim>\<open>size\<close> \<open>2 ^ 61 + 1\<close> and a slot
  array of one slot. With valid flags and a failed allocation, no queue is returned and
  the error is not \<^verbatim>\<open>EINVAL\<close>: the call runs into undefined behaviour.
\<close>

theorem new_capacity_counterexample:
  "ac_cqueue_new True (Some (\<lambda>i. 7)) 2305843009213693953 (Some log_item) AC_CQUEUE_OVERWRITE =
     Inr \<lparr> queue = [NULL], front = 0, rear = 0, count = 0, size_q = 2305843009213693953,
           dyn_size = False, overwrite = True, free_item = log_item \<rparr> \<and>
   ac_cqueue_new False None 3 (Some log_item) 0 = Inl Fault \<and>
   ac_cqueue_new True None 3 (Some log_item) AC_CQUEUE_OVERWRITE = Inl Fault"
  by (simp add: ac_cqueue_new_def alloc_slots_def AC_CQUEUE_OVERWRITE_def)


subsection \<open>Failed insertion\<close>

text \<open>
  Claim C6. An insertion fails in exactly two situations: the queue is full, fixed and
  not in overwrite mode; or the queue is full and growable and \<^verbatim>\<open>realloc\<close> fails. In
  both it returns -1 and the queue (slot array, indices, count, capacity) and the world
  are what they were before the call. Every other insertion returns 0.
\<close>

theorem push_failure_leaves_queue:
  "(count cq = size_q cq \<and> \<not> dyn_size cq \<and> \<not> overwrite cq
      \<longrightarrow> ac_cqueue_push ra cq item w = (- 1, cq, w)) \<and>
   (count cq = size_q cq \<and> dyn_size cq \<and> ra = None
      \<longrightarrow> ac_cqueue_push ra cq item w = (- 1, cq, w)) \<and>
   (fst (ac_cqueue_push ra cq item w) \<noteq> 0
      \<longrightarrow> ac_cqueue_push ra cq item w = (- 1, cq, w) \<and> count cq = size_q cq \<and>
          (if dyn_size cq then ra = None else \<not> overwrite cq))"
  by (auto simp add: ac_cqueue_push_def push_store_def Let_def split: option.splits)

theorem push_failure_leaves_queue_witness:
  "ac_cqueue_push None
     \<lparr> queue = [5], front = 0, rear = 1, count = 1, size_q = 1,
       dyn_size = False, overwrite = False, free_item = log_item \<rparr> 6 [] =
   (- 1, \<lparr> queue = [5], front = 0, rear = 1, count = 1, size_q = 1,
          dyn_size = False, overwrite = False, free_item = log_item \<rparr>, []) \<and>
   ac_cqueue_push None
     \<lparr> queue = [5], front = 0, rear = 1, count = 1, size_q = 1,
       dyn_size = True, overwrite = False, free_item = log_item \<rparr> 6 [] =
   (- 1, \<lparr> queue = [5], front = 0, rear = 1, count = 1, size_q = 1,
          dyn_size = True, overwrite = False, free_item = log_item \<rparr>, [])"
proof
  show "ac_cqueue_push None
     \<lparr> queue = [5], front = 0, rear = 1, count = 1, size_q = 1,
       dyn_size = False, overwrite = False, free_item = log_item \<rparr> 6 [] =
   (- 1, \<lparr> queue = [5], front = 0, rear = 1, count = 1, size_q = 1,
          dyn_size = False, overwrite = False, free_item = log_item \<rparr>, [])"
    by (rule push_failure_leaves_queue [THEN conjunct1, THEN mp]) simp
  show "ac_cqueue_push None
     \<lparr> queue = [5], front = 0, rear = 1, count = 1, size_q = 1,
       dyn_size = True, overwrite = False, free_item = log_item \<rparr> 6 [] =
   (- 1, \<lparr> queue = [5], front = 0, rear = 1, count = 1, size_q = 1,
          dyn_size = True, overwrite = False, free_item = log_item \<rparr>, [])"
    by (rule push_failure_leaves_queue [THEN conjunct2, THEN conjunct1, THEN mp]) simp
qed

subsection \<open>Removal without overwrite mode\<close>

text \<open>
  Claim C9. On a queue that is not empty and not in overwrite mode,
  \<^verbatim>\<open>ac_cqueue_pop\<close> returns the content of the front slot (\<^verbatim>\<open>front\<close> first wrapped
  to 0 when it equals the capacity) and changes \<^verbatim>\<open>front\<close> and \<^verbatim>\<open>count\<close> only: the
  slot array, and so the slot of the removed item, stays as it was.
\<close>

theorem pop_keeps_slot:
  assumes "count cq \<noteq> 0" and "\<not> overwrite cq"
  shows "ac_cqueue_pop cq =
           (queue cq ! (if front cq = size_q cq then 0 else front cq),
            cq\<lparr> front := (if front cq = size_q cq then 0 else front cq) + 1,
                count := count cq - 1 \<rparr>)"
  using assms by (simp add: ac_cqueue_pop_def Let_def)

theorem pop_keeps_slot_witness:
  "ac_cqueue_pop
     \<lparr> queue = [5, 6], front = 0, rear = 2, count = 2, size_q = 2,
       dyn_size = False, overwrite = False, free_item = log_item \<rparr> =
   (5, \<lparr> queue = [5, 6], front = 1, rear = 2, count = 1, size_q = 2,
         dyn_size = False, overwrite = False, free_item = log_item \<rparr>)"
  using pop_keeps_slot [of "\<lparr> queue = [5, 6], front = 0, rear = 2, count = 2, size_q = 2,
      dyn_size = False, overwrite = False, free_item = log_item \<rparr>"]
  by simp

subsection \<open>Index bounds\<close>

text \<open>
  The shape \<open>cq_shape\<close> holds of a new queue and is kept by every insertion and
  removal, whatever \<^verbatim>\<open>realloc\<close> does.
\<close>

lemma new_shape:
  assumes "ac_cqueue_new st arr sz fi flags = Inr cq"
  shows "cq_shape cq"
  using assms
  by (auto simp add: ac_cqueue_new_def cq_shape_def Let_def AC_CQUEUE_ALLOC_CHUNK_SZ_def
      unat_gt_0 split: if_splits option.splits)

lemma push_store_shape:
  assumes "cq_shape cq"
  shows "cq_shape (fst (snd (push_store cq item w)))"
  using assms by (auto simp add: push_store_def cq_shape_def Let_def)

lemma push_shape:
  assumes "cq_shape cq"
  shows "cq_shape (fst (snd (ac_cqueue_push ra cq item w)))"
proof -
  have "cq_shape (cq\<lparr> queue := queue cq @ map junk [0..<AC_CQUEUE_ALLOC_CHUNK_SZ],
                       size_q := size_q cq + AC_CQUEUE_ALLOC_CHUNK_SZ \<rparr>)" for junk
    using assms by (simp add: cq_shape_def)
  with assms show ?thesis
    by (simp add: ac_cqueue_push_def push_store_shape split: option.splits)
qed

lemma pop_shape:
  assumes "cq_shape cq"
  shows "cq_shape (snd (ac_cqueue_pop cq))"
  using assms by (auto simp add: ac_cqueue_pop_def cq_shape_def Let_def)

lemma step_shape:
  assumes "cq_shape cq"
  shows "cq_shape (fst (snd (step c (cq, w))))"
  using assms by (cases c) (simp_all add: push_shape pop_shape split: prod.splits,
      (metis fst_conv snd_conv push_shape pop_shape)+)

lemma run_shape:
  assumes "cq_shape cq"
  shows "cq_shape (fst (snd (run cs (cq, w))))"
  using assms
proof (induction cs arbitrary: cq w)
  case Nil
  then show ?case by simp
next
  case (Cons c cs)
  obtain r cq' w' where s: "step c (cq, w) = (r, cq', w')"
    by (cases "step c (cq, w)")
  with Cons.prems have "cq_shape cq'"
    using step_shape [of cq c w] by simp
  then have "cq_shape (fst (snd (run cs (cq', w'))))"
    by (rule Cons.IH)
  with s show ?case
    by (auto split: prod.splits)
qed

text \<open>
  Claim C8, as amended. In every state that a client can observe, after construction and
  any sequence of insertions and removals, \<^verbatim>\<open>front\<close> and \<^verbatim>\<open>rear\<close> are at most the
  capacity. Either index may be equal to the capacity: \<^verbatim>\<open>ac_cqueue_pop\<close> leaves
  \<^verbatim>\<open>front\<close> one past the slot it read and wraps it to 0 only at its next call, as
  \<^verbatim>\<open>ac_cqueue_push\<close> does with \<^verbatim>\<open>rear\<close>.
\<close>

theorem index_bounds:
  assumes "session st arr sz fi flags ops w0 = Inr (rs, (q, f, r, c, n), w)"
  shows "f \<le> n \<and> r \<le> n"
proof -
  from assms obtain cq0 where new: "ac_cqueue_new st arr sz fi flags = Inr cq0"
    by (auto simp add: session_def split: sum.splits)
  obtain rs' cq' w' where run: "run ops (cq0, w0) = (rs', cq', w')"
    by (cases "run ops (cq0, w0)")
  from new have "cq_shape cq0"
    by (rule new_shape)
  then have "cq_shape (fst (snd (run ops (cq0, w0))))"
    by (rule run_shape)
  with run have "cq_shape cq'"
    by simp
  moreover from assms new run have "cq_fields cq' = (q, f, r, c, n)"
    by (simp add: session_def)
  ultimately show ?thesis
    by (simp add: cq_shape_def cq_fields_def)
qed

theorem index_bounds_witness:
  "session True (Some (\<lambda>i. 7)) 1 (Some log_item) 0 [Push None 5, Pop] [] =
     Inr ([Pushed 0, Popped 5], ([5], 1, 1, 0, 1), []) \<and>
   (1 :: nat) \<le> 1 \<and> (1 :: nat) \<le> 1"
proof -
  have s: "session True (Some (\<lambda>i. 7)) 1 (Some log_item) 0 [Push None 5, Pop] [] =
     Inr ([Pushed 0, Popped 5], ([5], 1, 1, 0, 1), [])"
    by code_simp
  from index_bounds [OF s] s show ?thesis
    by simp
qed

text \<open>
  The strict bound \<open>front < capacity\<close> of claim C8 fails: a queue of one slot, after
  one insertion and one removal, has \<^verbatim>\<open>front\<close> equal to its capacity 1.
\<close>

theorem front_below_capacity_counterexample:
  "(case session True (Some (\<lambda>i. 7)) 1 (Some log_item) 0 [Push None 5, Pop] [] of
      Inl e \<Rightarrow> False
    | Inr (rs, (q, f, r, c, n), w) \<Rightarrow> \<not> f < n)"
  by code_simp


subsection \<open>Memory safety\<close>

text \<open>
  A queue whose slot array has \<^verbatim>\<open>size\<close> slots keeps such an array, and on such a queue
  within the index bounds every operation stays inside the array.
\<close>

lemma push_alloc:
  assumes "length (queue cq) = size_q cq"
  shows "length (queue (fst (snd (ac_cqueue_push ra cq item w)))) =
           size_q (fst (snd (ac_cqueue_push ra cq item w)))"
  using assms
  by (simp add: ac_cqueue_push_def push_store_def Let_def AC_CQUEUE_ALLOC_CHUNK_SZ_def
      split: option.splits)

lemma pop_alloc:
  assumes "length (queue cq) = size_q cq"
  shows "length (queue (snd (ac_cqueue_pop cq))) = size_q (snd (ac_cqueue_pop cq))"
  using assms by (simp add: ac_cqueue_pop_def Let_def)

lemma push_in_array_shape:
  assumes "cq_shape cq" and "length (queue cq) = size_q cq"
  shows "push_in_array ra cq"
  using assms
  by (auto simp add: push_in_array_def cq_shape_def AC_CQUEUE_ALLOC_CHUNK_SZ_def
      split: option.splits)

lemma pop_in_array_shape:
  assumes "cq_shape cq" and "length (queue cq) = size_q cq"
  shows "pop_in_array cq"
  using assms by (auto simp add: pop_in_array_def cq_shape_def)

lemma in_array_shape:
  assumes "cq_shape cq" and "length (queue cq) = size_q cq"
  shows "in_array cs (cq, w)"
  using assms
proof (induction cs arbitrary: cq w)
  case Nil
  then show ?case by simp
next
  case (Cons c cs)
  show ?case
  proof (cases c)
    case (Push ra item)
    obtain r cq' w' where p: "ac_cqueue_push ra cq item w = (r, cq', w')"
      by (cases "ac_cqueue_push ra cq item w")
    from Cons.prems have "cq_shape cq'" and "length (queue cq') = size_q cq'"
      using push_shape [of cq ra item w] push_alloc [of cq ra item w] p by simp_all
    then have "in_array cs (cq', w')"
      by (rule Cons.IH)
    with Cons.prems p Push show ?thesis
      by (simp add: push_in_array_shape)
  next
    case Pop
    obtain r cq' where p: "ac_cqueue_pop cq = (r, cq')"
      by (cases "ac_cqueue_pop cq")
    from Cons.prems have "cq_shape cq'" and "length (queue cq') = size_q cq'"
      using pop_shape [of cq] pop_alloc [of cq] p by simp_all
    then have "in_array cs (cq', w)"
      by (rule Cons.IH)
    with Cons.prems p Pop show ?thesis
      by (simp add: pop_in_array_shape)
  qed
qed


subsection \<open>The front index in overwrite mode\<close>

text \<open>
  Claim C1 says that in overwrite mode, after each insertion, \<^verbatim>\<open>front\<close> is the index
  of the oldest live item, also while the queue is not yet full. In the code, the test
  \<^verbatim>\<open>front < rear\<close> of \<^verbatim>\<open>ac_cqueue_push\<close> also holds while the queue fills up, and
  \<^verbatim>\<open>front\<close> follows \<^verbatim>\<open>rear\<close>: after one insertion into a new queue of three slots
  the item is in slot 0 and \<^verbatim>\<open>front\<close> is 1, and the next removal returns the null
  pointer of the empty slot 1, not the item.
\<close>

theorem overwrite_front_skips_live_item:
  "session True (Some (\<lambda>i. 7)) 3 (Some log_item) AC_CQUEUE_OVERWRITE [Push None 11] [] =
     Inr ([Pushed 0], ([11, 0, 0], 1, 1, 1, 3), []) \<and>
   session True (Some (\<lambda>i. 7)) 3 (Some log_item) AC_CQUEUE_OVERWRITE [Push None 11, Pop] [] =
     Inr ([Pushed 0, Popped 0], ([11, 0, 0], 2, 1, 0, 3), [])"
  by code_simp

subsection \<open>Destruction\<close>

text \<open>
  Claim C2 says that \<^verbatim>\<open>ac_cqueue_destroy\<close> calls the release callback once for each
  live item, never for a removed item, and not at all on an empty queue. In the code,
  \<^verbatim>\<open>ac_cqueue_destroy\<close> does not test \<^verbatim>\<open>count\<close>, and with \<^verbatim>\<open>front\<close> not below
  \<^verbatim>\<open>rear\<close> it walks the slots from \<^verbatim>\<open>front\<close> to the end and from 0 to \<^verbatim>\<open>rear\<close>.
  A new queue of three slots, destroyed at once, has the callback called on its three
  uninitialised slots; after one insertion and one removal it is called on two
  uninitialised slots and on the item the client has removed.
\<close>

theorem destroy_releases_dead_slots:
  "session_destroy True (Some ((+) 900)) 3 (Some log_item) 0 [] [] = Inr ([], [900, 901, 902]) \<and>
   session_destroy True (Some ((+) 900)) 3 (Some log_item) 0 [Push None 11, Pop] [] =
     Inr ([Pushed 0, Popped 11], [901, 902, 11])"
  by code_simp

subsection \<open>Growth\<close>

text \<open>
  The capacity changes only in an insertion into a full growable queue whose
  \<^verbatim>\<open>realloc\<close> succeeds, and then by 16.
\<close>

lemma push_capacity:
  "size_q (fst (snd (ac_cqueue_push ra cq x w))) =
     (if count cq = size_q cq \<and> dyn_size cq \<and> ra \<noteq> None then size_q cq + 16
      else size_q cq)"
  by (auto simp add: ac_cqueue_push_def push_store_def Let_def AC_CQUEUE_ALLOC_CHUNK_SZ_def
      split: option.splits)

lemma pop_capacity:
  "size_q (snd (ac_cqueue_pop cq)) = size_q cq"
  by (simp add: ac_cqueue_pop_def Let_def)

text \<open>
  Claim C5 says that growth keeps the live items and their order, also when the live
  span has wrapped around the end of the slot array. In the code, growth appends 16
  slots and leaves \<^verbatim>\<open>front\<close> and \<^verbatim>\<open>rear\<close> as they are. A growable queue takes 16
  items, one removal (of 101) and the item 117, which goes to slot 0: it is full, with
  \<^verbatim>\<open>front\<close> and \<^verbatim>\<open>rear\<close> both 1. The insertion of 118 grows the array to 32 slots
  and stores 118 in slot 1, over the oldest live item 102. The 17 removals that follow
  return 118, then 103 to 116, then the content of the uninitialised slots 16 and 17;
  102 and 117 are never returned.
\<close>

theorem growth_of_wrapped_queue_loses_items:
  "session True (Some ((+) 900)) 0 (Some log_item) 0
     (map (Push (Some ((+) 700)))
        [101, 102, 103, 104, 105, 106, 107, 108, 109, 110, 111, 112, 113, 114, 115, 116] @
      [Pop, Push (Some ((+) 700)) 117, Push (Some ((+) 700)) 118] @ replicate 17 Pop) [] =
   Inr (replicate 16 (Pushed 0) @ [Popped 101, Pushed 0, Pushed 0] @
        map Popped
          [118, 103, 104, 105, 106, 107, 108, 109, 110, 111, 112, 113, 114, 115, 116, 700, 701],
        ([117, 118, 103, 104, 105, 106, 107, 108, 109, 110, 111, 112, 113, 114, 115, 116,
          700, 701, 702, 703, 704, 705, 706, 707, 708, 709, 710, 711, 712, 713, 714, 715],
         18, 2, 0, 32),
        [])"
  by code_simp

text \<open>
  Claim C10 says that on a growable queue in overwrite mode an insertion into a full
  queue grows the capacity and releases no item. In the code, the release test
  \<^verbatim>\<open>queue[rear] != NULL\<close> follows the growth. In the same sequence as above, in
  overwrite mode, the insertion of 118 grows the array to 32 slots and calls the
  release callback on the live item 102 in slot 1.
\<close>

theorem growth_in_overwrite_mode_evicts:
  "session True (Some ((+) 900)) 0 (Some log_item) AC_CQUEUE_OVERWRITE
     (map (Push (Some ((+) 700)))
        [101, 102, 103, 104, 105, 106, 107, 108, 109, 110, 111, 112, 113, 114, 115, 116] @
      [Pop, Push (Some ((+) 700)) 117]) [] =
   Inr (replicate 16 (Pushed 0) @ [Popped 101, Pushed 0],
        ([117, 102, 103, 104, 105, 106, 107, 108, 109, 110, 111, 112, 113, 114, 115, 116],
         1, 1, 16, 16),
        []) \<and>
   session True (Some ((+) 900)) 0 (Some log_item) AC_CQUEUE_OVERWRITE
     (map (Push (Some ((+) 700)))
        [101, 102, 103, 104, 105, 106, 107, 108, 109, 110, 111, 112, 113, 114, 115, 116] @
      [Pop, Push (Some ((+) 700)) 117, Push (Some ((+) 700)) 118]) [] =
   Inr (replicate 16 (Pushed 0) @ [Popped 101, Pushed 0, Pushed 0],
        ([117, 118, 103, 104, 105, 106, 107, 108, 109, 110, 111, 112, 113, 114, 115, 116,
          700, 701, 702, 703, 704, 705, 706, 707, 708, 709, 710, 711, 712, 713, 714, 715],
         2, 2, 17, 32),
        [102])"
  by code_simp

subsection \<open>First in, first out\<close>

text \<open>
  Running two sequences of operations one after the other; removal from an empty queue
  and insertion into a full fixed queue without overwrite mode.
\<close>

lemma run_append:
  "run (as @ bs) (cq, w) =
     (case run as (cq, w) of (r1, cq1, w1) \<Rightarrow>
        (case run bs (cq1, w1) of (r2, cq2, w2) \<Rightarrow> (r1 @ r2, cq2, w2)))"
  by (induction as arbitrary: cq w) (simp_all split: prod.splits)

lemma pop_empty:
  assumes "count cq = 0"
  shows "ac_cqueue_pop cq = (NULL, cq)"
  using assms by (simp add: ac_cqueue_pop_def)

lemma push_full_fixed:
  assumes "count cq = size_q cq" and "\<not> dyn_size cq" and "\<not> overwrite cq"
  shows "ac_cqueue_push ra cq x w = (- 1, cq, w)"
  using assms by (simp add: ac_cqueue_push_def)

text \<open>
  On a fixed queue without overwrite mode, an insertion that has room appends the item
  to the live items and a removal takes their head, wherever \<^verbatim>\<open>front\<close> and \<^verbatim>\<open>rear\<close>
  stand in the array, also across the wraps of both.
\<close>

lemma wrap_mod:
  assumes "i \<le> n" and "0 < n"
  shows "(if i = n then 0 else i) = i mod (n :: nat)"
  using assms by auto

lemma ring_slots_differ:
  assumes "i < c" and "c < n"
  shows "(f + i) mod n \<noteq> (f + c) mod (n :: nat)"
proof
  assume "(f + i) mod n = (f + c) mod n"
  then have "(f + c) mod n = (f + i) mod n"
    by simp
  with assms have "n dvd (f + c) - (f + i)"
    using mod_eq_dvd_iff_nat [of "f + i" "f + c" n] by simp
  with assms have "n dvd c - i"
    by simp
  with assms have "n \<le> c - i"
    by (intro dvd_imp_le) simp_all
  with assms show False
    by simp
qed

lemma push_live:
  assumes "fifo_inv cq" and "count cq < size_q cq"
  shows "\<exists>cq'. ac_cqueue_push ra cq x w = (0, cq', w) \<and> fifo_inv cq' \<and>
               live cq' = live cq @ [x] \<and> count cq' = Suc (count cq) \<and>
               size_q cq' = size_q cq"
proof -
  let ?n = "size_q cq"
  let ?r = "if rear cq = ?n then 0 else rear cq"
  let ?cq = "cq\<lparr> queue := (queue cq)[?r := x], rear := ?r + 1, count := count cq + 1 \<rparr>"
  from assms have inv: "\<not> overwrite cq" "\<not> dyn_size cq" "length (queue cq) = ?n" "0 < ?n"
      "front cq \<le> ?n" "rear cq \<le> ?n"
      "rear cq mod ?n = (front cq + count cq) mod ?n"
    by (simp_all add: fifo_inv_def cq_shape_def)
  from inv have r: "?r = rear cq mod ?n"
    by (intro wrap_mod) simp_all
  with inv have r': "?r = (front cq + count cq) mod ?n" and rn: "?r < ?n"
    by simp_all
  from assms inv have push: "ac_cqueue_push ra cq x w = (0, ?cq, w)"
    by (simp add: ac_cqueue_push_def push_store_def Let_def)
  have "(?r + 1) mod ?n = (front cq + (count cq + 1)) mod ?n"
    unfolding r' by (simp add: mod_Suc_eq)
  with assms inv rn have inv': "fifo_inv ?cq"
    by (simp add: fifo_inv_def cq_shape_def)
  have old: "map (\<lambda>i. (queue cq)[?r := x] ! ((front cq + i) mod ?n)) [0..<count cq] =
             map (\<lambda>i. queue cq ! ((front cq + i) mod ?n)) [0..<count cq]"
  proof (rule map_cong [OF refl])
    fix i assume "i \<in> set [0..<count cq]"
    with assms have "(front cq + i) mod ?n \<noteq> (front cq + count cq) mod ?n"
      by (intro ring_slots_differ) simp_all
    then show "(queue cq)[?r := x] ! ((front cq + i) mod ?n) =
               queue cq ! ((front cq + i) mod ?n)"
      unfolding r' by simp
  qed
  from inv rn have "(queue cq)[?r := x] ! ((front cq + count cq) mod ?n) = x"
    unfolding r' [symmetric] by simp
  with old have "live ?cq = live cq @ [x]"
    by (simp add: live_def)
  with push inv' show ?thesis
    by simp
qed

lemma pop_live:
  assumes "fifo_inv cq" and "count cq \<noteq> 0"
  shows "\<exists>cq'. ac_cqueue_pop cq = (hd (live cq), cq') \<and> fifo_inv cq' \<and>
               live cq' = tl (live cq) \<and> count cq' = count cq - 1 \<and>
               size_q cq' = size_q cq"
proof -
  let ?n = "size_q cq"
  let ?f = "if front cq = ?n then 0 else front cq"
  let ?cq = "cq\<lparr> front := ?f + 1, count := count cq - 1 \<rparr>"
  from assms have inv: "\<not> overwrite cq" "\<not> dyn_size cq" "length (queue cq) = ?n" "0 < ?n"
      "front cq \<le> ?n" "rear cq \<le> ?n" "count cq \<le> ?n"
      "rear cq mod ?n = (front cq + count cq) mod ?n"
    by (simp_all add: fifo_inv_def cq_shape_def)
  from inv have f: "?f = front cq mod ?n"
    by (intro wrap_mod) simp_all
  with inv have fn: "?f < ?n"
    by simp
  from assms inv have pop: "ac_cqueue_pop cq = (queue cq ! ?f, ?cq)"
    by (simp add: ac_cqueue_pop_def Let_def)
  from assms obtain c where c: "count cq = Suc c"
    by (cases "count cq") simp_all
  have hd: "hd (live cq) = queue cq ! ?f"
    unfolding f by (simp add: live_def c upt_conv_Cons del: upt_Suc)
  have step: "(?f + 1 + i) mod ?n = (front cq + Suc i) mod ?n" for i
  proof -
    have "(?f + 1 + i) mod ?n = (front cq mod ?n + Suc i) mod ?n"
      unfolding f by simp
    also have "\<dots> = (front cq + Suc i) mod ?n"
      by (rule mod_add_left_eq)
    finally show ?thesis .
  qed
  have "tl (live cq) = map (\<lambda>i. queue cq ! ((front cq + Suc i) mod ?n)) [0..<c]"
    by (simp add: live_def c upt_conv_Cons map_Suc_upt [symmetric] del: upt_Suc)
  moreover have "live ?cq = map (\<lambda>i. queue cq ! ((?f + 1 + i) mod ?n)) [0..<c]"
    by (simp add: live_def c)
  ultimately have tl: "live ?cq = tl (live cq)"
    by (simp only: step)
  have "(?f + 1 + (count cq - 1)) mod ?n = (front cq + count cq) mod ?n"
    using step [of c] by (simp add: c)
  with inv fn have inv': "fifo_inv ?cq"
    by (simp add: fifo_inv_def cq_shape_def)
  from pop hd tl inv' show ?thesis
    by simp
qed

lemma push_all_live:
  assumes "fifo_inv cq" and "count cq + length xs \<le> size_q cq"
  shows "\<exists>cq'. run (map (Push ra) xs) (cq, w) = (replicate (length xs) (Pushed 0), cq', w) \<and>
               fifo_inv cq' \<and> live cq' = live cq @ xs \<and>
               count cq' = count cq + length xs \<and> size_q cq' = size_q cq"
  using assms
proof (induction xs arbitrary: cq)
  case Nil
  then show ?case by simp
next
  case (Cons x xs)
  from Cons.prems have "count cq < size_q cq"
    by simp
  with Cons.prems(1) obtain cq1 where
    p: "ac_cqueue_push ra cq x w = (0, cq1, w)" and inv: "fifo_inv cq1"
    and l: "live cq1 = live cq @ [x]" and c: "count cq1 = Suc (count cq)"
    and s: "size_q cq1 = size_q cq"
    using push_live [of cq ra x w] by blast
  from Cons.prems c s have "count cq1 + length xs \<le> size_q cq1"
    by simp
  with inv obtain cq' where
    "run (map (Push ra) xs) (cq1, w) = (replicate (length xs) (Pushed 0), cq', w)"
    "fifo_inv cq'" "live cq' = live cq1 @ xs" "count cq' = count cq1 + length xs"
    "size_q cq' = size_q cq1"
    using Cons.IH [of cq1] by blast
  with p l c s show ?case
    by simp
qed

lemma pop_all_live:
  assumes "fifo_inv cq" and "n \<le> count cq"
  shows "\<exists>cq'. run (replicate n Pop) (cq, w) = (map Popped (take n (live cq)), cq', w) \<and>
               fifo_inv cq' \<and> live cq' = drop n (live cq) \<and>
               count cq' = count cq - n \<and> size_q cq' = size_q cq"
  using assms
proof (induction n arbitrary: cq)
  case 0
  then show ?case by simp
next
  case (Suc n)
  from Suc.prems have "count cq \<noteq> 0"
    by simp
  with Suc.prems(1) obtain cq1 where
    p: "ac_cqueue_pop cq = (hd (live cq), cq1)" and inv: "fifo_inv cq1"
    and l: "live cq1 = tl (live cq)" and c: "count cq1 = count cq - 1"
    and s: "size_q cq1 = size_q cq"
    using pop_live [of cq] by blast
  from Suc.prems c have "n \<le> count cq1"
    by simp
  with inv obtain cq' where r:
    "run (replicate n Pop) (cq1, w) = (map Popped (take n (live cq1)), cq', w)"
    "fifo_inv cq'" "live cq' = drop n (live cq1)" "count cq' = count cq1 - n"
    "size_q cq' = size_q cq1"
    using Suc.IH [of cq1] by blast
  from Suc.prems have "live cq \<noteq> []"
    by (auto simp add: live_def)
  then have "take (Suc n) (live cq) = hd (live cq) # take n (tl (live cq))"
    and "drop (Suc n) (live cq) = drop n (tl (live cq))"
    by (cases "live cq"; simp)+
  with p l c s r show ?case
    by simp
qed

lemma step_fifo_inv:
  assumes "fifo_inv cq"
  shows "fifo_inv (fst (snd (step c (cq, w))))"
proof (cases c)
  case (Push ra x)
  show ?thesis
  proof (cases "count cq = size_q cq")
    case True
    with assms have "ac_cqueue_push ra cq x w = (- 1, cq, w)"
      by (intro push_full_fixed) (simp_all add: fifo_inv_def)
    with assms Push show ?thesis
      by simp
  next
    case False
    with assms have "count cq < size_q cq"
      by (simp add: fifo_inv_def cq_shape_def)
    with assms obtain cq' where "ac_cqueue_push ra cq x w = (0, cq', w)" "fifo_inv cq'"
      using push_live [of cq ra x w] by blast
    with Push show ?thesis
      by simp
  qed
next
  case Pop
  show ?thesis
  proof (cases "count cq = 0")
    case True
    then have "ac_cqueue_pop cq = (NULL, cq)"
      by (rule pop_empty)
    with assms Pop show ?thesis
      by simp
  next
    case False
    with assms obtain cq' where "ac_cqueue_pop cq = (hd (live cq), cq')" "fifo_inv cq'"
      using pop_live [of cq] by blast
    with Pop show ?thesis
      by simp
  qed
qed

lemma run_fifo_inv:
  assumes "fifo_inv cq" and "run cs (cq, w) = (rs, cq', w')"
  shows "fifo_inv cq' \<and> size_q cq' = size_q cq"
  using assms
proof (induction cs arbitrary: cq w rs)
  case Nil
  then show ?case by simp
next
  case (Cons c cs)
  obtain r cq1 w1 where s: "step c (cq, w) = (r, cq1, w1)"
    by (cases "step c (cq, w)")
  with Cons.prems(1) have inv: "fifo_inv cq1"
    using step_fifo_inv [of cq c w] by simp
  have size: "size_q cq1 = size_q cq"
  proof (cases c)
    case (Push ra x)
    with s Cons.prems(1) show ?thesis
      using push_capacity [of ra cq x w] by (auto simp add: fifo_inv_def split: prod.splits)
  next
    case Pop
    with s show ?thesis
      using pop_capacity [of cq] by (auto split: prod.splits)
  qed
  obtain rs1 where "run cs (cq1, w1) = (rs1, cq', w')"
    using Cons.prems(2) s by (auto split: prod.splits)
  with inv have "fifo_inv cq' \<and> size_q cq' = size_q cq1"
    by (rule Cons.IH)
  with size show ?case
    by simp
qed

lemma new_fifo_inv:
  assumes "ac_cqueue_new True (Some mem) sz fi 0 = Inr cq0" and "sz \<noteq> 0"
    and "unat sz < 2 ^ 61"
  shows "fifo_inv cq0 \<and> size_q cq0 = unat sz \<and> count cq0 = 0"
  using assms
  by (auto simp add: ac_cqueue_new_def fifo_inv_def cq_shape_def Let_def alloc_slots_small
      unat_gt_0)

text \<open>
  Claim C3, as amended. Take a fixed queue without overwrite mode, constructed with a
  capacity \<open>N\<close>, \<open>0 < N < 2 ^ 61\<close>, both allocations succeeding, and any state of it
  with count 0 that a sequence \<open>pre\<close> of insertions and removals has reached. From
  there, for any \<open>N\<close> items: each of the \<open>N\<close> insertions returns 0; one more insertion
  returns -1 and the count is \<open>N\<close> after it; the next \<open>N\<close> removals return the items in
  the order of their insertion; one more removal returns the null pointer, the count
  being 0. Every slot accessed on the way is inside the slot array.
\<close>

theorem fixed_queue_fifo:
  assumes "ac_cqueue_new True (Some mem) sz fi 0 = Inr cq0" and "sz \<noteq> 0"
    and "unat sz < 2 ^ 61"
    and "run pre (cq0, w0) = (rs0, cq, w)" and "count cq = 0"
    and "length xs = unat sz"
  shows "\<exists>cq1 cq2.
           run (map (Push ra) xs @ [Push ra y]) (cq, w) =
             (replicate (unat sz) (Pushed 0) @ [Pushed (- 1)], cq1, w) \<and>
           count cq1 = unat sz \<and>
           run (replicate (unat sz) Pop @ [Pop]) (cq1, w) =
             (map Popped xs @ [Popped NULL], cq2, w) \<and>
           count cq2 = 0 \<and>
           in_array (pre @ map (Push ra) xs @ [Push ra y] @ replicate (unat sz) Pop @ [Pop])
             (cq0, w0)"
proof -
  from assms(1-3) have inv0: "fifo_inv cq0" and size0: "size_q cq0 = unat sz"
    using new_fifo_inv by blast+
  from inv0 assms(4) have inv: "fifo_inv cq" and size: "size_q cq = unat sz"
    using run_fifo_inv [of cq0 pre w0 rs0 cq w] size0 by simp_all
  from assms(5) have empty: "live cq = []"
    by (simp add: live_def)
  from assms(5,6) size have "count cq + length xs \<le> size_q cq"
    by simp
  with inv obtain cq1 where
    fill: "run (map (Push ra) xs) (cq, w) = (replicate (length xs) (Pushed 0), cq1, w)"
    and inv1: "fifo_inv cq1" and live1: "live cq1 = live cq @ xs"
    and count1: "count cq1 = count cq + length xs" and size1: "size_q cq1 = size_q cq"
    using push_all_live [of cq xs ra w] by blast
  from count1 assms(5,6) size size1 have full: "count cq1 = size_q cq1" "count cq1 = unat sz"
    by simp_all
  with inv1 have reject: "ac_cqueue_push ra cq1 y w = (- 1, cq1, w)"
    by (intro push_full_fixed) (simp_all add: fifo_inv_def)
  from full have "unat sz \<le> count cq1"
    by simp
  with inv1 obtain cq2 where
    drain: "run (replicate (unat sz) Pop) (cq1, w) =
              (map Popped (take (unat sz) (live cq1)), cq2, w)"
    and count2: "count cq2 = count cq1 - unat sz"
    using pop_all_live [of cq1 "unat sz" w] by blast
  from full count2 have c2: "count cq2 = 0"
    by simp
  then have last: "ac_cqueue_pop cq2 = (NULL, cq2)"
    by (rule pop_empty)
  from live1 empty assms(6) have items: "take (unat sz) (live cq1) = xs"
    by simp
  from inv0 have "in_array (pre @ map (Push ra) xs @ [Push ra y] @ replicate (unat sz) Pop @ [Pop])
      (cq0, w0)"
    by (intro in_array_shape) (simp_all add: fifo_inv_def)
  moreover from fill reject assms(6) have
    "run (map (Push ra) xs @ [Push ra y]) (cq, w) =
       (replicate (unat sz) (Pushed 0) @ [Pushed (- 1)], cq1, w)"
    by (simp add: run_append)
  moreover from drain items last have
    "run (replicate (unat sz) Pop @ [Pop]) (cq1, w) = (map Popped xs @ [Popped NULL], cq2, w)"
    by (simp add: run_append)
  ultimately show ?thesis
    using full c2 by blast
qed

theorem fixed_queue_fifo_witness:
  "\<exists>cq1 cq2.
     run (map (Push None) [11, 12, 13] @ [Push None 14])
         (\<lparr> queue = [1, 2, 7], front = 2, rear = 2, count = 0, size_q = 3,
            dyn_size = False, overwrite = False, free_item = log_item \<rparr>, []) =
       (replicate 3 (Pushed 0) @ [Pushed (- 1)], cq1, []) \<and>
     count cq1 = 3 \<and>
     run (replicate 3 Pop @ [Pop]) (cq1, []) =
       (map Popped [11, 12, 13] @ [Popped NULL], cq2, []) \<and>
     count cq2 = 0 \<and>
     in_array ([Push None 1, Push None 2, Pop, Pop] @ map (Push None) [11, 12, 13] @
         [Push None 14] @ replicate 3 Pop @ [Pop])
       (\<lparr> queue = [7, 7, 7], front = 0, rear = 0, count = 0, size_q = 3,
          dyn_size = False, overwrite = False, free_item = log_item \<rparr>, [])"
proof -
  let ?new = "\<lparr> queue = [7, 7, 7], front = 0, rear = 0, count = 0, size_q = 3,
      dyn_size = False, overwrite = False, free_item = log_item \<rparr>"
  let ?empty = "\<lparr> queue = [1, 2, 7], front = 2, rear = 2, count = 0, size_q = 3,
      dyn_size = False, overwrite = False, free_item = log_item \<rparr>"
  have new: "ac_cqueue_new True (Some (\<lambda>i. 7)) 3 (Some log_item) 0 = Inr ?new"
    by (simp add: ac_cqueue_new_def alloc_slots_def upt_rec)
  have fixed: "(3 :: 64 word) \<noteq> 0" and small: "unat (3 :: 64 word) < 2 ^ 61"
    by simp_all
  have pre: "run [Push None 1, Push None 2, Pop, Pop] (?new, []) =
      ([Pushed 0, Pushed 0, Popped 1, Popped 2], ?empty, [])"
    by (simp add: ac_cqueue_push_def push_store_def ac_cqueue_pop_def Let_def)
  have empty: "count ?empty = 0" and len: "length [11, 12, 13 :: nat] = unat (3 :: 64 word)"
    by simp_all
  from fixed_queue_fifo [OF new fixed small pre empty len, of None 14]
  show ?thesis
    by simp
qed

text \<open>
  Claim C3 as it was stated is for every capacity. For the capacity \<open>2 ^ 61 + 1\<close> the
  byte size of the slot array wraps around and the new queue has one slot: the first
  insertion stays inside the array, the second writes outside of it.
\<close>

theorem fixed_queue_capacity_counterexample:
  "(case ac_cqueue_new True (Some (\<lambda>i. 7)) 2305843009213693953 (Some log_item) 0 of
      Inl e \<Rightarrow> False
    | Inr cq \<Rightarrow>
        size_q cq = 2305843009213693953 \<and> \<not> dyn_size cq \<and> \<not> overwrite cq \<and>
        count cq = 0 \<and> length (queue cq) = 1 \<and>
        in_array [Push None 11] (cq, []) \<and>
        \<not> in_array [Push None 11, Push None 12] (cq, []))"
  by (simp add: ac_cqueue_new_def alloc_slots_def ac_cqueue_push_def push_store_def
      push_in_array_def Let_def)


subsection \<open>Overwrite mode on a fixed queue\<close>

text \<open>
  Removals from a span of slots that does not wrap, and the wrap of \<^verbatim>\<open>front\<close>.
\<close>

lemma pop_step:
  assumes "count cq \<noteq> 0" and "front cq < size_q cq"
  shows "ac_cqueue_pop cq =
           (queue cq ! front cq,
            cq\<lparr> queue := (if overwrite cq then (queue cq)[front cq := NULL] else queue cq),
                front := front cq + 1, count := count cq - 1 \<rparr>)"
  using assms by (simp add: ac_cqueue_pop_def Let_def)

lemma pop_wrap:
  assumes "count cq \<noteq> 0" and "front cq = size_q cq"
  shows "ac_cqueue_pop cq = ac_cqueue_pop (cq\<lparr> front := 0 \<rparr>)"
  using assms by (simp add: ac_cqueue_pop_def Let_def)

lemma drain_span:
  assumes "front cq + n \<le> size_q cq" and "n \<le> count cq" and "length (queue cq) = size_q cq"
  shows "run (replicate n Pop) (cq, w) =
           (map Popped (take n (drop (front cq) (queue cq))),
            cq\<lparr> queue := (if overwrite cq
                           then take (front cq) (queue cq) @ replicate n NULL @
                                drop (front cq + n) (queue cq)
                           else queue cq),
                front := front cq + n, count := count cq - n \<rparr>, w)"
  using assms
proof (induction n arbitrary: cq)
  case 0
  then show ?case by simp
next
  case (Suc n)
  let ?cq = "cq\<lparr> queue := (if overwrite cq then (queue cq)[front cq := NULL] else queue cq),
                front := front cq + 1, count := count cq - 1 \<rparr>"
  from Suc.prems have p: "ac_cqueue_pop cq = (queue cq ! front cq, ?cq)"
    by (intro pop_step) simp_all
  from Suc.prems have ih: "run (replicate n Pop) (?cq, w) =
           (map Popped (take n (drop (front ?cq) (queue ?cq))),
            ?cq\<lparr> queue := (if overwrite ?cq
                           then take (front ?cq) (queue ?cq) @ replicate n NULL @
                                drop (front ?cq + n) (queue ?cq)
                           else queue ?cq),
                front := front ?cq + n, count := count ?cq - n \<rparr>, w)"
    by (intro Suc.IH) simp_all
  from Suc.prems have f: "front cq < length (queue cq)"
    by simp
  then have t: "take (Suc (front cq)) ((queue cq)[front cq := NULL]) = take (front cq) (queue cq) @ [NULL]"
    by (simp add: take_Suc_conv_app_nth)
  from f have d: "take (Suc n) (drop (front cq) (queue cq)) =
      queue cq ! front cq # take n (drop (Suc (front cq)) (queue cq))"
    by (simp add: Cons_nth_drop_Suc [symmetric])
  show ?case
    using p ih t d by (simp add: replicate_app_Cons_same)
qed


text \<open>
  On a full queue in overwrite mode, each insertion releases the occupant of the front
  slot, stores the item there and moves \<^verbatim>\<open>front\<close> on: the ring loses its head and gains
  the item at its end. Removing as many items as the capacity from a full queue returns
  the ring.
\<close>

lemma push_ow_full:
  assumes "ow_full cq"
  shows "ac_cqueue_push ra cq x w =
           (0, cq\<lparr> queue := (queue cq)[front cq := x],
                    front := (if front cq + 1 = size_q cq then 0 else front cq + 1),
                    rear := front cq + 1 \<rparr>,
            free_item cq (queue cq ! front cq) w)"
proof -
  from assms have "front cq < length (queue cq)" and "NULL \<notin> set (queue cq)"
    by (simp_all add: ow_full_def)
  then have "queue cq ! front cq \<noteq> NULL"
    by (metis nth_mem)
  with assms show ?thesis
    by (cases "rear cq = size_q cq")
      (auto simp add: ow_full_def ac_cqueue_push_def push_store_def Let_def)
qed

lemma ow_full_step:
  assumes "ow_full cq" and "x \<noteq> NULL"
  shows "ow_full (cq\<lparr> queue := (queue cq)[front cq := x],
                    front := (if front cq + 1 = size_q cq then 0 else front cq + 1),
                    rear := front cq + 1 \<rparr>)"
  using assms by (auto simp add: ow_full_def dest: set_update_subset_insert [THEN subsetD])

lemma ring_step:
  assumes "ow_full cq"
  shows "ring (cq\<lparr> queue := (queue cq)[front cq := x],
                    front := (if front cq + 1 = size_q cq then 0 else front cq + 1),
                    rear := front cq + 1 \<rparr>) = tl (ring cq) @ [x]"
    and "hd (ring cq) = queue cq ! front cq"
    and "ring cq \<noteq> []"
proof -
  from assms have f: "front cq < length (queue cq)" and n: "length (queue cq) = size_q cq"
    by (simp_all add: ow_full_def)
  from f have d: "drop (front cq) (queue cq) = queue cq ! front cq # drop (Suc (front cq)) (queue cq)"
    by (simp add: Cons_nth_drop_Suc)
  from d show "hd (ring cq) = queue cq ! front cq" and "ring cq \<noteq> []"
    by (simp_all add: ring_def)
  from f have t: "take (Suc (front cq)) ((queue cq)[front cq := x]) = take (front cq) (queue cq) @ [x]"
    by (simp add: take_Suc_conv_app_nth)
  show "ring (cq\<lparr> queue := (queue cq)[front cq := x],
                    front := (if front cq + 1 = size_q cq then 0 else front cq + 1),
                    rear := front cq + 1 \<rparr>) = tl (ring cq) @ [x]"
  proof (cases "front cq + 1 = size_q cq")
    case True
    with n have "drop (Suc (front cq)) (queue cq) = []"
      by simp
    with True f d show ?thesis
      by (simp add: ring_def upd_conv_take_nth_drop)
  next
    case False
    with f d t show ?thesis
      by (simp add: ring_def)
  qed
qed

lemma evict_all:
  assumes "ow_full cq" and "NULL \<notin> set xs"
  shows "\<exists>cq'. run (map (Push ra) xs) (cq, w) =
                 (replicate (length xs) (Pushed 0), cq',
                  fold (free_item cq) (take (length xs) (ring cq @ xs)) w) \<and>
               ow_full cq' \<and> ring cq' = drop (length xs) (ring cq @ xs) \<and>
               size_q cq' = size_q cq \<and> free_item cq' = free_item cq"
  using assms
proof (induction xs arbitrary: cq w)
  case Nil
  then show ?case by simp
next
  case (Cons x xs)
  let ?cq = "cq\<lparr> queue := (queue cq)[front cq := x],
                  front := (if front cq + 1 = size_q cq then 0 else front cq + 1),
                  rear := front cq + 1 \<rparr>"
  let ?w = "free_item cq (queue cq ! front cq) w"
  from Cons.prems have p: "ac_cqueue_push ra cq x w = (0, ?cq, ?w)"
    by (intro push_ow_full)
  from Cons.prems have "x \<noteq> NULL"
    by auto
  with Cons.prems(1) have full: "ow_full ?cq"
    by (rule ow_full_step)
  from Cons.prems(1) have r: "ring ?cq = tl (ring cq) @ [x]"
    by (rule ring_step(1))
  from Cons.prems(1) have h: "hd (ring cq) = queue cq ! front cq"
    by (rule ring_step(2))
  from Cons.prems(1) have ne: "ring cq \<noteq> []"
    by (rule ring_step(3))
  from ne h obtain T where c: "ring cq = queue cq ! front cq # T"
    by (cases "ring cq") simp_all
  with r have r': "ring ?cq = T @ [x]"
    by simp
  from full Cons.prems(2) obtain cq' where
    run: "run (map (Push ra) xs) (?cq, ?w) =
            (replicate (length xs) (Pushed 0), cq',
             fold (free_item ?cq) (take (length xs) (ring ?cq @ xs)) ?w)"
    and cq': "ow_full cq'" "ring cq' = drop (length xs) (ring ?cq @ xs)"
      "size_q cq' = size_q ?cq" "free_item cq' = free_item ?cq"
    using Cons.IH [of ?cq ?w] by auto
  have "take (length (x # xs)) (ring cq @ x # xs) =
          queue cq ! front cq # take (length xs) (ring ?cq @ xs)"
    unfolding c r' by simp
  moreover have "drop (length (x # xs)) (ring cq @ x # xs) = drop (length xs) (ring ?cq @ xs)"
    unfolding c r' by simp
  ultimately show ?case
    using p run cq' by simp
qed

lemma drain_ring:
  assumes "count cq = size_q cq" and "front cq < size_q cq"
    and "length (queue cq) = size_q cq"
  shows "\<exists>cq'. run (replicate (size_q cq) Pop) (cq, w) = (map Popped (ring cq), cq', w) \<and>
               count cq' = 0 \<and> size_q cq' = size_q cq"
proof -
  let ?n = "size_q cq - front cq"
  let ?cq1 = "cq\<lparr> queue := (if overwrite cq
                           then take (front cq) (queue cq) @ replicate ?n NULL @
                                drop (front cq + ?n) (queue cq)
                           else queue cq),
                front := front cq + ?n, count := count cq - ?n \<rparr>"
  from assms have first: "run (replicate ?n Pop) (cq, w) =
      (map Popped (take ?n (drop (front cq) (queue cq))), ?cq1, w)"
    by (intro drain_span) simp_all
  from assms have dr: "take ?n (drop (front cq) (queue cq)) = drop (front cq) (queue cq)"
    by simp
  from assms have split: "replicate (size_q cq) Pop = replicate ?n Pop @ replicate (front cq) Pop"
    by (simp add: replicate_add [symmetric])
  show ?thesis
  proof (cases "front cq = 0")
    case True
    with assms first dr show ?thesis
      by (simp add: ring_def)
  next
    case False
    then obtain m where m: "front cq = Suc m"
      by (cases "front cq") simp_all
    let ?cq2 = "?cq1\<lparr> front := 0 \<rparr>"
    from assms False have wrap: "ac_cqueue_pop ?cq1 = ac_cqueue_pop ?cq2"
      by (intro pop_wrap) simp_all
    then have "run (replicate (Suc m) Pop) (?cq1, w) = run (replicate (Suc m) Pop) (?cq2, w)"
      by simp
    moreover from assms have "run (replicate (front cq) Pop) (?cq2, w) =
        (map Popped (take (front cq) (drop (front ?cq2) (queue ?cq2))),
         ?cq2\<lparr> queue := (if overwrite ?cq2
                           then take (front ?cq2) (queue ?cq2) @ replicate (front cq) NULL @
                                drop (front ?cq2 + front cq) (queue ?cq2)
                           else queue ?cq2),
                front := front ?cq2 + front cq, count := count ?cq2 - front cq \<rparr>, w)"
      by (intro drain_span) simp_all
    ultimately have second: "\<exists>cq'. run (replicate (front cq) Pop) (?cq1, w) =
        (map Popped (take (front cq) (queue cq)), cq', w) \<and> count cq' = 0 \<and>
        size_q cq' = size_q cq"
      using assms m by simp
    then obtain cq' where "run (replicate (front cq) Pop) (?cq1, w) =
        (map Popped (take (front cq) (queue cq)), cq', w)" "count cq' = 0"
        "size_q cq' = size_q cq"
      by blast
    with first dr show ?thesis
      by (subst split) (simp add: run_append ring_def)
  qed
qed


text \<open>
  Filling an empty queue in overwrite mode whose slots are all empty: no target slot is
  occupied and nothing is released. \<^verbatim>\<open>front\<close>, if it is below the capacity, is taken
  along by \<^verbatim>\<open>rear\<close> at the latest when \<^verbatim>\<open>rear\<close> reaches the capacity, and when the
  queue is full it stands on the first item, wherever the filling began.
\<close>

lemma push_ow_room:
  assumes "overwrite cq" and "count cq < size_q cq" and "rear cq < size_q cq"
    and "queue cq ! rear cq = NULL"
  shows "ac_cqueue_push ra cq x w =
           (0, cq\<lparr> queue := (queue cq)[rear cq := x],
                    front := (if front cq < rear cq + 1
                              then (if rear cq + 1 = size_q cq then 0 else rear cq + 1)
                              else front cq),
                    rear := rear cq + 1, count := count cq + 1 \<rparr>, w)"
  using assms by (simp add: ac_cqueue_push_def push_store_def Let_def)

lemma push_rear_wrap:
  assumes "overwrite cq" and "\<not> dyn_size cq" and "rear cq = size_q cq"
  shows "ac_cqueue_push ra cq x w = ac_cqueue_push ra (cq\<lparr> rear := 0 \<rparr>) x w"
  using assms by (simp add: ac_cqueue_push_def push_store_def Let_def)

lemma fill_span:
  assumes "overwrite cq" and "count cq + length xs \<le> size_q cq"
    and "rear cq + length xs \<le> size_q cq" and "length (queue cq) = size_q cq"
    and "\<forall>i. rear cq \<le> i \<and> i < rear cq + length xs \<longrightarrow> queue cq ! i = NULL"
  shows "run (map (Push ra) xs) (cq, w) =
           (replicate (length xs) (Pushed 0),
            cq\<lparr> queue := take (rear cq) (queue cq) @ xs @ drop (rear cq + length xs) (queue cq),
                front := (if xs = [] then front cq
                          else if front cq < rear cq + length xs
                          then (if rear cq + length xs = size_q cq then 0
                                else rear cq + length xs)
                          else front cq),
                rear := rear cq + length xs, count := count cq + length xs \<rparr>, w)"
  using assms
proof (induction xs arbitrary: cq)
  case Nil
  then show ?case by simp
next
  case (Cons x xs)
  let ?next = "cq\<lparr> queue := (queue cq)[rear cq := x],
                    front := (if front cq < rear cq + 1
                              then (if rear cq + 1 = size_q cq then 0 else rear cq + 1)
                              else front cq),
                    rear := rear cq + 1, count := count cq + 1 \<rparr>"
  from Cons.prems have p: "ac_cqueue_push ra cq x w = (0, ?next, w)"
    by (intro push_ow_room) simp_all
  from Cons.prems have ih: "run (map (Push ra) xs) (?next, w) =
           (replicate (length xs) (Pushed 0),
            ?next\<lparr> queue := take (rear ?next) (queue ?next) @ xs @
                            drop (rear ?next + length xs) (queue ?next),
                front := (if xs = [] then front ?next
                          else if front ?next < rear ?next + length xs
                          then (if rear ?next + length xs = size_q ?next then 0
                                else rear ?next + length xs)
                          else front ?next),
                rear := rear ?next + length xs, count := count ?next + length xs \<rparr>, w)"
    by (intro Cons.IH) simp_all
  from Cons.prems have t: "take (Suc (rear cq)) ((queue cq)[rear cq := x]) =
      take (rear cq) (queue cq) @ [x]"
    by (simp add: take_Suc_conv_app_nth)
  show ?case
    using p ih t Cons.prems by (cases "xs = []") auto
qed

lemma run_push_cong:
  assumes "xs \<noteq> []" and "\<And>x. ac_cqueue_push ra cq x w = ac_cqueue_push ra cq' x w"
  shows "run (map (Push ra) xs) (cq, w) = run (map (Push ra) xs) (cq', w)"
  using assms by (cases xs) simp_all

lemma fill_ring:
  assumes ow: "overwrite cq" and fixed: "\<not> dyn_size cq" and empty: "count cq = 0"
    and len: "length (queue cq) = size_q cq" and nulls: "set (queue cq) \<subseteq> {NULL}"
    and f: "front cq < size_q cq" and r: "rear cq \<le> size_q cq"
    and xs: "length xs = size_q cq" "NULL \<notin> set xs"
  shows "\<exists>cq'. run (map (Push ra) xs) (cq, w) = (replicate (size_q cq) (Pushed 0), cq', w) \<and>
               ow_full cq' \<and> ring cq' = xs \<and> size_q cq' = size_q cq \<and>
               free_item cq' = free_item cq"
proof -
  let ?n = "size_q cq"
  define s where "s = (if rear cq = ?n then 0 else rear cq)"
  define xsA where "xsA = take (?n - s) xs"
  define xsB where "xsB = drop (?n - s) xs"
  define a where "a = cq\<lparr> rear := s \<rparr>"
  from f r have s: "s < ?n"
    by (auto simp add: s_def)
  with xs have lenA: "length xsA = ?n - s" and lenB: "length xsB = s"
    and split: "xs = xsA @ xsB" and neA: "xsA \<noteq> []"
    by (auto simp add: xsA_def xsB_def)
  from xs(2) split have nnA: "NULL \<notin> set xsA" and nnB: "NULL \<notin> set xsB"
    by auto
  have null: "queue cq ! i = NULL" if "i < ?n" for i
  proof -
    from that len have "queue cq ! i \<in> set (queue cq)"
      by simp
    with nulls show ?thesis
      by blast
  qed
  have same: "ac_cqueue_push ra cq x w = ac_cqueue_push ra a x w" for x
  proof (cases "rear cq = ?n")
    case True
    with ow fixed show ?thesis
      by (simp add: a_def s_def push_rear_wrap)
  next
    case False
    then show ?thesis
      by (simp add: a_def s_def)
  qed
  define cqA where "cqA = a\<lparr> queue := take s (queue cq) @ xsA, front := 0, rear := ?n,
      count := ?n - s \<rparr>"
  have "run (map (Push ra) xsA) (a, w) =
          (replicate (length xsA) (Pushed 0),
           a\<lparr> queue := take (rear a) (queue a) @ xsA @ drop (rear a + length xsA) (queue a),
               front := (if xsA = [] then front a
                         else if front a < rear a + length xsA
                         then (if rear a + length xsA = size_q a then 0
                               else rear a + length xsA)
                         else front a),
               rear := rear a + length xsA, count := count a + length xsA \<rparr>, w)"
    using ow empty len s lenA null by (intro fill_span) (simp_all add: a_def)
  with s lenA neA len f empty have "run (map (Push ra) xsA) (a, w) =
      (replicate (?n - s) (Pushed 0), cqA, w)"
    by (simp add: a_def cqA_def)
  with same neA have runA: "run (map (Push ra) xsA) (cq, w) =
      (replicate (?n - s) (Pushed 0), cqA, w)"
    using run_push_cong [of xsA ra cq w a] by simp
  show ?thesis
  proof (cases "s = 0")
    case True
    with lenB split have "xs = xsA"
      by simp
    moreover from True ow fixed nnA lenA s have "ow_full cqA"
      by (simp add: ow_full_def cqA_def a_def)
    moreover from True have "ring cqA = xsA"
      by (simp add: ring_def cqA_def)
    moreover have "size_q cqA = ?n" and "free_item cqA = free_item cq"
      by (simp_all add: cqA_def a_def)
    ultimately show ?thesis
      using runA True by auto
  next
    case False
    with lenB have neB: "xsB \<noteq> []"
      by auto
    define b where "b = cqA\<lparr> rear := 0 \<rparr>"
    define cqB where "cqB = b\<lparr> queue := xsB @ xsA, front := s, rear := s, count := ?n \<rparr>"
    from ow fixed have "ac_cqueue_push ra cqA x w = ac_cqueue_push ra b x w" for x
      unfolding b_def by (intro push_rear_wrap) (simp_all add: cqA_def a_def)
    with neB have wrapB: "run (map (Push ra) xsB) (cqA, w) = run (map (Push ra) xsB) (b, w)"
      using run_push_cong [of xsB ra cqA w b] by simp
    have slots: "queue b ! i = NULL" if "i < s" for i
      using that s len null [of i] by (simp add: b_def cqA_def nth_append)
    have "run (map (Push ra) xsB) (b, w) =
          (replicate (length xsB) (Pushed 0),
           b\<lparr> queue := take (rear b) (queue b) @ xsB @ drop (rear b + length xsB) (queue b),
               front := (if xsB = [] then front b
                         else if front b < rear b + length xsB
                         then (if rear b + length xsB = size_q b then 0
                               else rear b + length xsB)
                         else front b),
               rear := rear b + length xsB, count := count b + length xsB \<rparr>, w)"
      using ow s lenA lenB len slots by (intro fill_span) (simp_all add: b_def cqA_def a_def)
    with s lenB neB len False have "run (map (Push ra) xsB) (b, w) =
        (replicate s (Pushed 0), cqB, w)"
      by (simp add: b_def cqA_def a_def cqB_def)
    with wrapB runA split s have "run (map (Push ra) xs) (cq, w) =
        (replicate ?n (Pushed 0), cqB, w)"
      by (simp add: run_append replicate_add [symmetric])
    moreover from ow fixed s lenA lenB nnA nnB have "ow_full cqB"
      by (simp add: ow_full_def cqB_def b_def cqA_def a_def)
    moreover from lenB split have "ring cqB = xs"
      by (simp add: ring_def cqB_def)
    moreover have "size_q cqB = ?n" and "free_item cqB = free_item cq"
      by (simp_all add: cqB_def b_def cqA_def a_def)
    ultimately show ?thesis
      by auto
  qed
qed

text \<open>
  The operations on a fixed queue change neither its mode, its callback, its capacity
  nor the length of its slot array.
\<close>

lemma push_store_frame:
  "overwrite (fst (snd (push_store cq x w))) = overwrite cq"
  "dyn_size (fst (snd (push_store cq x w))) = dyn_size cq"
  "free_item (fst (snd (push_store cq x w))) = free_item cq"
  "size_q (fst (snd (push_store cq x w))) = size_q cq"
  "length (queue (fst (snd (push_store cq x w)))) = length (queue cq)"
  by (simp_all add: push_store_def Let_def)

lemma push_fixed_frame:
  assumes "\<not> dyn_size cq" and "ac_cqueue_push ra cq x w = (r, cq', w')"
  shows "overwrite cq' = overwrite cq \<and> dyn_size cq' = dyn_size cq \<and>
         free_item cq' = free_item cq \<and> size_q cq' = size_q cq \<and>
         length (queue cq') = length (queue cq)"
proof -
  from assms(1) have "ac_cqueue_push ra cq x w = (- 1, cq, w) \<or>
      ac_cqueue_push ra cq x w = push_store cq x w"
    by (simp add: ac_cqueue_push_def)
  then show ?thesis
  proof
    assume "ac_cqueue_push ra cq x w = (- 1, cq, w)"
    with assms(2) show ?thesis
      by simp
  next
    assume "ac_cqueue_push ra cq x w = push_store cq x w"
    with assms(2) have "cq' = fst (snd (push_store cq x w))"
      by simp
    then show ?thesis
      by (simp only: push_store_frame simp_thms)
  qed
qed

lemma pop_frame:
  "overwrite (snd (ac_cqueue_pop cq)) = overwrite cq"
  "dyn_size (snd (ac_cqueue_pop cq)) = dyn_size cq"
  "free_item (snd (ac_cqueue_pop cq)) = free_item cq"
  "size_q (snd (ac_cqueue_pop cq)) = size_q cq"
  "length (queue (snd (ac_cqueue_pop cq))) = length (queue cq)"
  by (simp_all add: ac_cqueue_pop_def Let_def)

lemma run_fixed_frame:
  assumes "\<not> dyn_size cq" and "run cs (cq, w) = (rs, cq', w')"
  shows "overwrite cq' = overwrite cq \<and> \<not> dyn_size cq' \<and> free_item cq' = free_item cq \<and>
         size_q cq' = size_q cq \<and> length (queue cq') = length (queue cq)"
  using assms
proof (induction cs arbitrary: cq w rs)
  case Nil
  then show ?case by simp
next
  case (Cons c cs)
  obtain r cq1 w1 where s: "step c (cq, w) = (r, cq1, w1)"
    by (cases "step c (cq, w)")
  have one: "overwrite cq1 = overwrite cq \<and> \<not> dyn_size cq1 \<and> free_item cq1 = free_item cq \<and>
      size_q cq1 = size_q cq \<and> length (queue cq1) = length (queue cq)"
  proof (cases c)
    case (Push ra x)
    with s Cons.prems(1) show ?thesis
      using push_fixed_frame [of cq ra x w] by (auto split: prod.splits)
  next
    case Pop
    with s have "cq1 = snd (ac_cqueue_pop cq)"
      by (auto split: prod.splits)
    with Cons.prems(1) show ?thesis
      by (simp only: pop_frame simp_thms)
  qed
  obtain rs1 where "run cs (cq1, w1) = (rs1, cq', w')"
    using Cons.prems(2) s by (auto split: prod.splits)
  with one have "overwrite cq' = overwrite cq1 \<and> \<not> dyn_size cq' \<and>
      free_item cq' = free_item cq1 \<and> size_q cq' = size_q cq1 \<and>
      length (queue cq') = length (queue cq1)"
    by (intro Cons.IH) simp_all
  with one show ?case
    by simp
qed

lemma new_fixed_alloc:
  assumes "ac_cqueue_new True (Some mem) sz fi flags = Inr cq0" and "sz \<noteq> 0"
    and "unat sz < 2 ^ 61"
  shows "\<not> dyn_size cq0 \<and> size_q cq0 = unat sz \<and> length (queue cq0) = unat sz"
  using assms
  by (auto simp add: ac_cqueue_new_def Let_def alloc_slots_small split: if_splits)

text \<open>
  Claim C4, as amended. Take a fixed queue in overwrite mode, constructed with a
  capacity \<open>N\<close>, \<open>0 < N < 2 ^ 61\<close>, both allocations succeeding, and any state of it that
  a sequence \<open>pre\<close> of insertions and removals has reached in which the count is 0,
  every slot is empty and \<^verbatim>\<open>front\<close> is below the capacity; the new queue is such a
  state. From there, inserting \<open>N + k\<close> items that are not null pointers succeeds each
  time and calls the release callback exactly on the first \<open>k\<close> items, oldest first:
  the world afterwards is the world before, after these \<open>k\<close> calls in this order. The
  count is then \<open>N\<close>, the slots in ring order from \<^verbatim>\<open>front\<close> hold the last \<open>N\<close> items,
  and \<open>N\<close> removals return them in the order of their insertion; one more removal
  returns the null pointer. Every slot accessed on the way is inside the slot array.
\<close>

theorem overwrite_keeps_last:
  assumes "ac_cqueue_new True (Some mem) sz fi flags = Inr cq0" and "overwrite cq0"
    and "sz \<noteq> 0" and "unat sz < 2 ^ 61"
    and "run pre (cq0, w0) = (rs0, cq, w)"
    and "count cq = 0" and "set (queue cq) \<subseteq> {NULL}" and "front cq < size_q cq"
    and "length xs = unat sz + k" and "NULL \<notin> set xs"
  shows "\<exists>cq1 cq2.
           run (map (Push ra) xs) (cq, w) =
             (replicate (unat sz + k) (Pushed 0), cq1, fold (free_item cq0) (take k xs) w) \<and>
           count cq1 = unat sz \<and> ring cq1 = drop k xs \<and>
           run (replicate (unat sz) Pop @ [Pop]) (cq1, fold (free_item cq0) (take k xs) w) =
             (map Popped (drop k xs) @ [Popped NULL], cq2,
              fold (free_item cq0) (take k xs) w) \<and>
           count cq2 = 0 \<and>
           in_array (pre @ map (Push ra) xs @ replicate (unat sz) Pop @ [Pop]) (cq0, w0)"
proof -
  let ?n = "unat sz"
  let ?w = "fold (free_item cq0) (take k xs) w"
  define xs1 where "xs1 = take ?n xs"
  define xs2 where "xs2 = drop ?n xs"
  from assms(9,10) have len: "length xs1 = ?n" "length xs2 = k" and xs: "xs = xs1 @ xs2"
    and nn: "NULL \<notin> set xs1" "NULL \<notin> set xs2"
    by (auto simp add: xs1_def xs2_def dest: in_set_takeD in_set_dropD)
  from assms(1,3,4) have new: "\<not> dyn_size cq0" "size_q cq0 = ?n" "length (queue cq0) = ?n"
    using new_fixed_alloc by blast+
  from assms(1) have shape0: "cq_shape cq0"
    by (rule new_shape)
  from new(1) assms(5) have frame: "overwrite cq = overwrite cq0" "\<not> dyn_size cq"
      "free_item cq = free_item cq0" "size_q cq = size_q cq0"
      "length (queue cq) = length (queue cq0)"
    using run_fixed_frame [of cq0 pre w0 rs0 cq w] by simp_all
  from shape0 have "cq_shape (fst (snd (run pre (cq0, w0))))"
    by (rule run_shape)
  with assms(5) have rear: "rear cq \<le> size_q cq"
    by (simp add: cq_shape_def)
  from frame new assms(2,6,7,8) rear len nn obtain cqf where
    fill: "run (map (Push ra) xs1) (cq, w) = (replicate (size_q cq) (Pushed 0), cqf, w)"
    and full: "ow_full cqf" and ringf: "ring cqf = xs1" and sizef: "size_q cqf = size_q cq"
    and freef: "free_item cqf = free_item cq"
    using fill_ring [of cq xs1 ra w] by auto
  from evict_all [OF full nn(2), of ra w] len ringf sizef freef frame new xs
  obtain cq1 where
    evict: "run (map (Push ra) xs2) (cqf, w) = (replicate k (Pushed 0), cq1, ?w)"
    and full1: "ow_full cq1" and ring1: "ring cq1 = drop k xs" and size1: "size_q cq1 = ?n"
    by auto
  from full1 size1 have shape1: "count cq1 = size_q cq1" "front cq1 < size_q cq1"
      "length (queue cq1) = size_q cq1" "count cq1 = ?n"
    by (simp_all add: ow_full_def)
  from drain_ring [OF shape1(1-3), of ?w] ring1 size1
  obtain cq2 where
    drain: "run (replicate ?n Pop) (cq1, ?w) = (map Popped (drop k xs), cq2, ?w)"
    and shape2: "count cq2 = 0"
    by auto
  from shape2 have last: "ac_cqueue_pop cq2 = (NULL, cq2)"
    by (rule pop_empty)
  from fill evict frame new have
    "run (map (Push ra) xs) (cq, w) = (replicate (?n + k) (Pushed 0), cq1, ?w)"
    by (simp add: xs run_append replicate_add)
  moreover from drain last have
    "run (replicate ?n Pop @ [Pop]) (cq1, ?w) =
       (map Popped (drop k xs) @ [Popped NULL], cq2, ?w)"
    by (simp add: run_append)
  moreover from shape0 new have
    "in_array (pre @ map (Push ra) xs @ replicate ?n Pop @ [Pop]) (cq0, w0)"
    by (intro in_array_shape) simp_all
  ultimately show ?thesis
    using shape1(4) ring1 shape2 by blast
qed

theorem overwrite_keeps_last_witness:
  "\<exists>cq1 cq2.
     run (map (Push None) [11, 12, 13, 14, 15])
         (\<lparr> queue = [NULL, NULL, NULL], front = 1, rear = 1, count = 0, size_q = 3,
            dyn_size = False, overwrite = True, free_item = log_item \<rparr>, [1]) =
       (replicate 5 (Pushed 0), cq1, [1, 11, 12]) \<and>
     count cq1 = 3 \<and> ring cq1 = [13, 14, 15] \<and>
     run (replicate 3 Pop @ [Pop]) (cq1, [1, 11, 12]) =
       (map Popped [13, 14, 15] @ [Popped NULL], cq2, [1, 11, 12]) \<and>
     count cq2 = 0 \<and>
     in_array ([Push None 1, Push None 2, Push None 3, Push None 4, Pop, Pop, Pop] @
         map (Push None) [11, 12, 13, 14, 15] @ replicate 3 Pop @ [Pop])
       (\<lparr> queue = [NULL, NULL, NULL], front = 0, rear = 0, count = 0, size_q = 3,
          dyn_size = False, overwrite = True, free_item = log_item \<rparr>, [])"
proof -
  let ?new = "\<lparr> queue = [NULL, NULL, NULL], front = 0, rear = 0, count = 0, size_q = 3,
      dyn_size = False, overwrite = True, free_item = log_item \<rparr>"
  let ?empty = "\<lparr> queue = [NULL, NULL, NULL], front = 1, rear = 1, count = 0, size_q = 3,
      dyn_size = False, overwrite = True, free_item = log_item \<rparr>"
  have rep: "replicate 3 NULL = [NULL, NULL, NULL]"
    by (simp add: numeral_3_eq_3)
  have new: "ac_cqueue_new True (Some (\<lambda>i. 7)) 3 (Some log_item) AC_CQUEUE_OVERWRITE =
      Inr ?new"
    by (simp add: ac_cqueue_new_def alloc_slots_def AC_CQUEUE_OVERWRITE_def rep)
  have ow: "overwrite ?new" and fixed: "(3 :: 64 word) \<noteq> 0"
    and small: "unat (3 :: 64 word) < 2 ^ 61"
    by simp_all
  have pre: "run [Push None 1, Push None 2, Push None 3, Push None 4, Pop, Pop, Pop]
      (?new, []) =
      ([Pushed 0, Pushed 0, Pushed 0, Pushed 0, Popped 2, Popped 3, Popped 4], ?empty, [1])"
    by (simp add: ac_cqueue_push_def push_store_def ac_cqueue_pop_def Let_def log_item_def
        NULL_def)
  have empty: "count ?empty = 0" and nulls: "set (queue ?empty) \<subseteq> {NULL}"
    and front: "front ?empty < size_q ?empty"
    and len: "length [11, 12, 13, 14, 15 :: nat] = unat (3 :: 64 word) + 2"
    and items: "NULL \<notin> set [11, 12, 13, 14, 15]"
    by (simp_all add: NULL_def)
  from overwrite_keeps_last [OF new ow fixed small pre empty nulls front len items, of None]
  show ?thesis
    by (simp add: log_item_def)
qed

text \<open>
  Claim C4 as it was stated is for every item, every queue in overwrite mode and every
  capacity. A null pointer that is inserted is not released when its slot is reused,
  since \<^verbatim>\<open>ac_cqueue_push\<close> releases only an occupant that is not null: with capacity 2,
  the insertion of the null pointer, 12 and 13 makes no call of the callback. After a
  queue of capacity 3 was filled and emptied, \<^verbatim>\<open>front\<close> equals the capacity and the
  insertions leave it there: after the insertion of 4, 5, 6 and 7 the removals return
  7, 5, 6. After one insertion and one removal on a new queue of capacity 3, the count
  is 0 but the item 1 is still in slot 0, since the removal read slot 1: the third of
  three insertions then releases it, one call where \<open>k\<close> is 0. For the capacity
  \<open>2 ^ 61 + 1\<close> the new queue has one slot, and the second insertion writes outside of
  it.
\<close>

theorem overwrite_keeps_last_counterexample:
  "session True (Some (\<lambda>i. 7)) 2 (Some log_item) AC_CQUEUE_OVERWRITE
       [Push None NULL, Push None 12, Push None 13, Pop, Pop, Pop] [] =
     Inr ([Pushed 0, Pushed 0, Pushed 0, Popped 12, Popped 13, Popped NULL],
          ([NULL, NULL], 1, 1, 0, 2), []) \<and>
   session True (Some (\<lambda>i. 7)) 3 (Some log_item) AC_CQUEUE_OVERWRITE
       ([Push None 1, Push None 2, Push None 3, Pop, Pop, Pop] @
        [Push None 4, Push None 5, Push None 6, Push None 7] @ [Pop, Pop, Pop]) [] =
     Inr ([Pushed 0, Pushed 0, Pushed 0, Popped 1, Popped 2, Popped 3,
           Pushed 0, Pushed 0, Pushed 0, Pushed 0, Popped 7, Popped 5, Popped 6],
          ([NULL, NULL, NULL], 3, 1, 0, 3), [4]) \<and>
   session True (Some (\<lambda>i. 7)) 3 (Some log_item) AC_CQUEUE_OVERWRITE
       ([Push None 1, Pop] @ [Push None 11, Push None 12, Push None 13] @ [Pop, Pop, Pop]) [] =
     Inr ([Pushed 0, Popped NULL, Pushed 0, Pushed 0, Pushed 0,
           Popped 11, Popped 12, Popped 13],
          ([NULL, NULL, NULL], 1, 1, 0, 3), [1]) \<and>
   (case ac_cqueue_new True (Some (\<lambda>i. 7)) 2305843009213693953 (Some log_item)
           AC_CQUEUE_OVERWRITE of
      Inl e \<Rightarrow> False
    | Inr cq \<Rightarrow>
        size_q cq = 2305843009213693953 \<and> \<not> dyn_size cq \<and> overwrite cq \<and>
        count cq = 0 \<and> queue cq = [NULL] \<and>
        \<not> in_array [Push None 11, Push None 12] (cq, []))"
proof (intro conjI)
  show "session True (Some (\<lambda>i. 7)) 2 (Some log_item) AC_CQUEUE_OVERWRITE
       [Push None NULL, Push None 12, Push None 13, Pop, Pop, Pop] [] =
     Inr ([Pushed 0, Pushed 0, Pushed 0, Popped 12, Popped 13, Popped NULL],
          ([NULL, NULL], 1, 1, 0, 2), [])"
    by code_simp
  show "session True (Some (\<lambda>i. 7)) 3 (Some log_item) AC_CQUEUE_OVERWRITE
       ([Push None 1, Push None 2, Push None 3, Pop, Pop, Pop] @
        [Push None 4, Push None 5, Push None 6, Push None 7] @ [Pop, Pop, Pop]) [] =
     Inr ([Pushed 0, Pushed 0, Pushed 0, Popped 1, Popped 2, Popped 3,
           Pushed 0, Pushed 0, Pushed 0, Pushed 0, Popped 7, Popped 5, Popped 6],
          ([NULL, NULL, NULL], 3, 1, 0, 3), [4])"
    by code_simp
  show "session True (Some (\<lambda>i. 7)) 3 (Some log_item) AC_CQUEUE_OVERWRITE
       ([Push None 1, Pop] @ [Push None 11, Push None 12, Push None 13] @ [Pop, Pop, Pop]) [] =
     Inr ([Pushed 0, Popped NULL, Pushed 0, Pushed 0, Pushed 0,
           Popped 11, Popped 12, Popped 13],
          ([NULL, NULL, NULL], 1, 1, 0, 3), [1])"
    by code_simp
  show "(case ac_cqueue_new True (Some (\<lambda>i. 7)) 2305843009213693953 (Some log_item)
           AC_CQUEUE_OVERWRITE of
      Inl e \<Rightarrow> False
    | Inr cq \<Rightarrow>
        size_q cq = 2305843009213693953 \<and> \<not> dyn_size cq \<and> overwrite cq \<and>
        count cq = 0 \<and> queue cq = [NULL] \<and>
        \<not> in_array [Push None 11, Push None 12] (cq, []))"
    by (simp add: ac_cqueue_new_def alloc_slots_def AC_CQUEUE_OVERWRITE_def
        ac_cqueue_push_def push_store_def push_in_array_def Let_def NULL_def)
qed


end
